theory Spec2Isabelle
  imports Main "HOL-Library.Sublist" "HOL-Library.Monad_Syntax"
begin

section \<open>Data model of the dependency checker\<close>

text \<open>
  The three dataclasses of \<^verbatim>\<open>dependency-checker.py\<close>. Python's \<^verbatim>\<open>str\<close> is
  modelled by \<^typ>\<open>string\<close>, every character standing for the code point of the same
  number (code points 0 to 255); \<^verbatim>\<open>List[str]\<close> is a list, \<^verbatim>\<open>Optional\<close> an option.
  Two dataclasses have a field \<^verbatim>\<open>name\<close> and two a field \<^verbatim>\<open>dependencies\<close>; the
  fields of \<^verbatim>\<open>AgentComponent\<close> are prefixed with \<open>comp_\<close> where they clash, and the
  optional file path of an issue is \<open>issue_file_path\<close>. The field \<^verbatim>\<open>functions\<close> is
  written \<open>functions'\<close>, the plain word being reserved.
\<close>

record InterfaceDefinition =
  name :: string
  file_path :: string
  functions' :: "string list"
  structures :: "string list"
  constants :: "string list"
  version :: string
  dependencies :: "string list"

record AgentComponent =
  comp_name :: string
  agent_type :: string
  file_paths :: "string list"
  interfaces_provided :: "string list"
  interfaces_required :: "string list"
  comp_dependencies :: "string list"

record DependencyIssue =
  severity :: string
  component :: string
  interface :: string
  message :: string
  issue_file_path :: "string option"
  line_number :: "int option"

text \<open>
  The records handed to the \<^verbatim>\<open>logging\<close> module: the level of the call
  (\<^verbatim>\<open>logger.debug\<close>, \<^verbatim>\<open>logger.warning\<close>, \<^verbatim>\<open>logger.error\<close>) and the text.
\<close>

datatype log_level = DEBUG | INFO | WARNING | ERROR

type_synonym log_record = "log_level \<times> string"

text \<open>
  Reading a file either raises (\<open>Inl\<close>, with the text of the exception) or yields the
  decoded content (\<open>Inr\<close>): \<^verbatim>\<open>open(file_path, 'r', encoding='utf-8')\<close> followed by
  \<^verbatim>\<open>f.read()\<close>.
\<close>

type_synonym file_tree = "string \<Rightarrow> string + string"

section \<open>Strings and paths\<close>

text \<open>\<^verbatim>\<open>s.startswith(p)\<close>, \<^verbatim>\<open>s.endswith(p)\<close> and \<^verbatim>\<open>p in s\<close> on strings.\<close>

definition startswith :: "string \<Rightarrow> string \<Rightarrow> bool" where
  "startswith s p = prefix p s"

definition endswith :: "string \<Rightarrow> string \<Rightarrow> bool" where
  "endswith s p = suffix p s"

fun str_contains :: "string \<Rightarrow> string \<Rightarrow> bool" where
  "str_contains p [] = (p = [])"
| "str_contains p (c # cs) = (prefix p (c # cs) \<or> str_contains p cs)"

text \<open>\<^verbatim>\<open>sep.join(xs)\<close>.\<close>

fun join :: "string \<Rightarrow> string list \<Rightarrow> string" where
  "join sep [] = []"
| "join sep [x] = x"
| "join sep (x # y # ys) = x @ sep @ join sep (y # ys)"

text \<open>\<^verbatim>\<open>str(n)\<close> for a length, as the f-strings print it.\<close>

fun str_nat :: "nat \<Rightarrow> string" where
  "str_nat n =
     (if n < 10 then [char_of (48 + n)]
      else str_nat (n div 10) @ [char_of (48 + n mod 10)])"

declare str_nat.simps [simp del]

text \<open>
  The standard library's \<^verbatim>\<open>pathlib.Path\<close> on a POSIX system: a path is split at
  \<^verbatim>\<open>/\<close>, empty components and \<^verbatim>\<open>.\<close> components are dropped; \<^verbatim>\<open>.name\<close> is the last
  component (empty when there is none), \<^verbatim>\<open>.stem\<close> is the name without its last suffix
  (the text from the last dot, unless that dot is the first or the last character of the
  name), \<^verbatim>\<open>.parent.name\<close> is the component before the last one.
\<close>

fun split_sep :: "char \<Rightarrow> string \<Rightarrow> string list" where
  "split_sep sep [] = [[]]"
| "split_sep sep (c # cs) =
     (if c = sep then [] # split_sep sep cs
      else (case split_sep sep cs of
              [] \<Rightarrow> [[c]]
            | w # ws \<Rightarrow> (c # w) # ws))"

definition path_parts :: "string \<Rightarrow> string list" where
  "path_parts p = filter (\<lambda>w. w \<noteq> [] \<and> w \<noteq> ''.'') (split_sep (CHR ''/'') p)"

definition path_name :: "string \<Rightarrow> string" where
  "path_name p = (case rev (path_parts p) of [] \<Rightarrow> [] | w # ws \<Rightarrow> w)"

definition path_parent_name :: "string \<Rightarrow> string" where
  "path_parent_name p = (case rev (path_parts p) of w # v # ws \<Rightarrow> v | _ \<Rightarrow> [])"

definition path_stem :: "string \<Rightarrow> string" where
  "path_stem p =
     (let n = path_name p;
          after = takeWhile (\<lambda>c. c \<noteq> CHR ''.'') (rev n)
      in if length after < length n \<and> 0 < length after \<and> Suc (length after) < length n
         then take (length n - Suc (length after)) n
         else n)"

section \<open>The regular expressions\<close>

text \<open>
  The character classes of the patterns: \<^verbatim>\<open>\s\<close> (Python's Unicode whitespace, below
  code point 256), \<^verbatim>\<open>[a-zA-Z_]\<close>, \<^verbatim>\<open>[a-zA-Z0-9_]\<close>, \<^verbatim>\<open>[A-Z_]\<close>, \<^verbatim>\<open>[A-Z0-9_]\<close>.
\<close>

definition is_space :: "char \<Rightarrow> bool" where
  "is_space c = (let n = (of_char c :: nat) in
      (9 \<le> n \<and> n \<le> 13) \<or> (28 \<le> n \<and> n \<le> 32) \<or> n = 133 \<or> n = 160)"

definition is_upper :: "char \<Rightarrow> bool" where
  "is_upper c = (let n = (of_char c :: nat) in 65 \<le> n \<and> n \<le> 90)"

definition is_lower :: "char \<Rightarrow> bool" where
  "is_lower c = (let n = (of_char c :: nat) in 97 \<le> n \<and> n \<le> 122)"

definition is_digit :: "char \<Rightarrow> bool" where
  "is_digit c = (let n = (of_char c :: nat) in 48 \<le> n \<and> n \<le> 57)"

definition ident_start :: "char \<Rightarrow> bool" where
  "ident_start c = (is_lower c \<or> is_upper c \<or> c = CHR ''_'')"

definition ident_char :: "char \<Rightarrow> bool" where
  "ident_char c = (is_lower c \<or> is_upper c \<or> is_digit c \<or> c = CHR ''_'')"

definition const_start :: "char \<Rightarrow> bool" where
  "const_start c = (is_upper c \<or> c = CHR ''_'')"

definition const_char :: "char \<Rightarrow> bool" where
  "const_char c = (is_upper c \<or> is_digit c \<or> c = CHR ''_'')"

text \<open>
  The pieces a pattern is made of, each taking the text at the current position and
  returning the text after the piece (\<open>None\<close>: the piece does not match here):
  literal text; one character of a class; \<open>X+\<close> for a class \<open>X\<close>; \<open>X*\<close> is
  \<^const>\<open>dropWhile\<close>; a captured token \<open>[first][rest]*\<close>. Every repetition in the
  five patterns is followed by a character outside its class (or by a piece that ends
  at the same place whatever the split, for the uncaptured \<^verbatim>\<open>\s+[*]*\s*\<close>), so the
  longest repetition is the only one that can lead to a match and no backtracking is
  modelled.
\<close>

fun lit :: "string \<Rightarrow> string \<Rightarrow> string option" where
  "lit [] s = Some s"
| "lit (p # ps) [] = None"
| "lit (p # ps) (c # cs) = (if p = c then lit ps cs else None)"

fun one_of :: "(char \<Rightarrow> bool) \<Rightarrow> string \<Rightarrow> string option" where
  "one_of P [] = None"
| "one_of P (c # cs) = (if P c then Some cs else None)"

fun many1 :: "(char \<Rightarrow> bool) \<Rightarrow> string \<Rightarrow> string option" where
  "many1 P [] = None"
| "many1 P (c # cs) = (if P c then Some (dropWhile P cs) else None)"

fun token :: "(char \<Rightarrow> bool) \<Rightarrow> (char \<Rightarrow> bool) \<Rightarrow> string \<Rightarrow> (string \<times> string) option" where
  "token first rest [] = None"
| "token first rest (c # cs) =
     (if first c then Some (c # takeWhile rest cs, dropWhile rest cs) else None)"

text \<open>
  The compiled patterns: the four of \<^verbatim>\<open>InterfaceParser.__init__\<close> and the one
  compiled in \<^verbatim>\<open>analyze_component_interfaces\<close>. \<open>match_at p s\<close> matches \<open>p\<close>
  at the start of \<open>s\<close> and returns the group the caller reads (\<^verbatim>\<open>group(2)\<close> for the
  function pattern, \<^verbatim>\<open>group(1)\<close> for the others) and the text after the match.
  \<^item> \<open>function_pattern\<close>:
    \<^verbatim>\<open>\s*([a-zA-Z_][a-zA-Z0-9_]*\s+[*]*)\s*([a-zA-Z_][a-zA-Z0-9_]*)\s*\([^)]*\)\s*;\<close>
  \<^item> \<open>struct_pattern\<close>: \<^verbatim>\<open>typedef\s+struct\s+([a-zA-Z_][a-zA-Z0-9_]*)\s*{\<close>
  \<^item> \<open>define_pattern\<close>: \<^verbatim>\<open>#define\s+([A-Z_][A-Z0-9_]*)\s+\<close>
  \<^item> \<open>include_pattern\<close>: \<^verbatim>\<open>#include\s+[<"]([^>"]+)[>"]\<close>
  \<^item> \<open>include_h_pattern\<close>: \<^verbatim>\<open>#include\s+[<"]([^>"]+\.h)[>"]\<close>
\<close>

datatype pattern =
  function_pattern | struct_pattern | define_pattern | include_pattern | include_h_pattern

fun match_at :: "pattern \<Rightarrow> string \<Rightarrow> (string \<times> string) option" where
  "match_at function_pattern s = do {
     (ty, s1) \<leftarrow> token ident_start ident_char (dropWhile is_space s);
     s2 \<leftarrow> many1 is_space s1;
     (fname, s3) \<leftarrow> token ident_start ident_char
                     (dropWhile is_space (dropWhile (\<lambda>c. c = CHR ''*'') s2));
     s4 \<leftarrow> lit ''('' (dropWhile is_space s3);
     s5 \<leftarrow> lit '')'' (dropWhile (\<lambda>c. c \<noteq> CHR '')'') s4);
     s6 \<leftarrow> lit '';'' (dropWhile is_space s5);
     Some (fname, s6) }"
| "match_at struct_pattern s = do {
     s1 \<leftarrow> lit ''typedef'' s;
     s2 \<leftarrow> many1 is_space s1;
     s3 \<leftarrow> lit ''struct'' s2;
     s4 \<leftarrow> many1 is_space s3;
     (sname, s5) \<leftarrow> token ident_start ident_char s4;
     s6 \<leftarrow> lit ''{'' (dropWhile is_space s5);
     Some (sname, s6) }"
| "match_at define_pattern s = do {
     s1 \<leftarrow> lit ''#define'' s;
     s2 \<leftarrow> many1 is_space s1;
     (cname, s3) \<leftarrow> token const_start const_char s2;
     s4 \<leftarrow> many1 is_space s3;
     Some (cname, s4) }"
| "match_at include_pattern s = do {
     s1 \<leftarrow> lit ''#include'' s;
     s2 \<leftarrow> many1 is_space s1;
     s3 \<leftarrow> one_of (\<lambda>c. c = CHR ''<'' \<or> c = CHR 0x22) s2;
     (inc, s4) \<leftarrow> token (\<lambda>c. c \<noteq> CHR ''>'' \<and> c \<noteq> CHR 0x22)
                          (\<lambda>c. c \<noteq> CHR ''>'' \<and> c \<noteq> CHR 0x22) s3;
     s5 \<leftarrow> one_of (\<lambda>c. c = CHR ''>'' \<or> c = CHR 0x22) s4;
     Some (inc, s5) }"
| "match_at include_h_pattern s = do {
     s1 \<leftarrow> lit ''#include'' s;
     s2 \<leftarrow> many1 is_space s1;
     s3 \<leftarrow> one_of (\<lambda>c. c = CHR ''<'' \<or> c = CHR 0x22) s2;
     (inc, s4) \<leftarrow> token (\<lambda>c. c \<noteq> CHR ''>'' \<and> c \<noteq> CHR 0x22)
                          (\<lambda>c. c \<noteq> CHR ''>'' \<and> c \<noteq> CHR 0x22) s3;
     s5 \<leftarrow> one_of (\<lambda>c. c = CHR ''>'' \<or> c = CHR 0x22) s4;
     if 2 < length inc \<and> suffix ''.h'' inc then Some (inc, s5) else None }"

lemma lit_length: "lit p s = Some r \<Longrightarrow> length r + length p = length s"
  by (induction p s rule: lit.induct) (auto split: if_splits)

lemma one_of_length: "one_of P s = Some r \<Longrightarrow> length r < length s"
  by (cases s) (auto split: if_splits)

lemma many1_length: "many1 P s = Some r \<Longrightarrow> length r < length s"
  by (cases s) (auto split: if_splits simp: less_Suc_eq_le length_dropWhile_le)

lemma token_length: "token f g s = Some (t, r) \<Longrightarrow> length r < length s"
  by (cases s) (auto split: if_splits simp: less_Suc_eq_le length_dropWhile_le)

lemma dropWhile_shorter: "length r < length (dropWhile P s) \<Longrightarrow> length r < length s"
  using length_dropWhile_le [of P s] by simp

lemma dropWhile_Suc_shorter: "Suc n = length (dropWhile P s) \<Longrightarrow> n < length s"
  using length_dropWhile_le [of P s] by simp

lemma match_at_length: "match_at p s = Some (g, r) \<Longrightarrow> length r < length s"
  by (cases p)
    (auto split: bind_splits if_splits
          dest!: lit_length one_of_length many1_length token_length
                 dropWhile_shorter dropWhile_Suc_shorter)

text \<open>
  \<^verbatim>\<open>[m.group(k) for m in pattern.finditer(content)]\<close>: the pattern is tried at every
  position from left to right; after a match the search goes on where the match ended.
  A match of these patterns is never empty.
\<close>

function finditer :: "pattern \<Rightarrow> string \<Rightarrow> string list" where
  "finditer p [] = []"
| "finditer p (c # cs) =
     (case match_at p (c # cs) of
        None \<Rightarrow> finditer p cs
      | Some (g, rest) \<Rightarrow> g # finditer p rest)"
  by pat_completeness auto
termination
  by (relation "measure (\<lambda>(p, s). length s)") (auto dest: match_at_length)

section \<open>InterfaceParser\<close>

text \<open>
  \<^verbatim>\<open>parse_header_file\<close>: the descriptor starts with the stem of the path and empty
  lists; the whole body is inside \<^verbatim>\<open>try ... except Exception\<close>, and only opening and
  reading the file can raise, before anything is appended. The function returns the
  descriptor in both cases; the second component is what it hands to the logger.
\<close>

definition empty_interface :: "string \<Rightarrow> InterfaceDefinition" where
  "empty_interface path =
     \<lparr>name = path_stem path, file_path = path, functions' = [], structures = [],
      constants = [], version = ''1.0.0'', dependencies = []\<rparr>"

definition parse_content :: "InterfaceDefinition \<Rightarrow> string \<Rightarrow> InterfaceDefinition" where
  "parse_content iface content =
     iface\<lparr>functions' := functions' iface @ finditer function_pattern content,
           structures := structures iface @ finditer struct_pattern content,
           constants := constants iface @ finditer define_pattern content,
           dependencies := dependencies iface @
             filter (\<lambda>include_file. \<not> startswith include_file ''std'' \<and>
                                    \<not> startswith include_file ''sys/'')
               (finditer include_pattern content)\<rparr>"

definition parse_header_file :: "file_tree \<Rightarrow> string \<Rightarrow> InterfaceDefinition \<times> log_record list" where
  "parse_header_file fs path =
     (case fs path of
        Inr content \<Rightarrow>
          (let iface = parse_content (empty_interface path) content
           in (iface,
               [(DEBUG, ''Parsed interface '' @ name iface @ '': '' @
                        str_nat (length (functions' iface)) @ '' functions, '' @
                        str_nat (length (structures iface)) @ '' structures, '' @
                        str_nat (length (constants iface)) @ '' constants'')]))
      | Inl e \<Rightarrow>
          (empty_interface path, [(ERROR, ''Failed to parse '' @ path @ '': '' @ e)]))"

section \<open>ComponentAnalyzer\<close>

text \<open>
  \<^verbatim>\<open>list(set(xs))\<close>: the elements of \<open>xs\<close>, each once. Python fixes no order for the
  result; the model keeps the order of \<^const>\<open>remdups\<close>, and the statements below
  speak about the elements only.
\<close>

definition list_set :: "string list \<Rightarrow> string list" where
  "list_set xs = remdups xs"

text \<open>
  The requirements one header contributes: the includes ending in \<^verbatim>\<open>.h\<close> that do not
  start with \<^verbatim>\<open>std\<close> and contain a \<^verbatim>\<open>/\<close>, reduced to their file name.
\<close>

definition required_of_content :: "string \<Rightarrow> string list" where
  "required_of_content content =
     map path_name
       (filter (\<lambda>included_file. \<not> startswith included_file ''std'' \<and>
                                 CHR ''/'' \<in> set included_file)
          (finditer include_h_pattern content))"

text \<open>
  The loop of \<^verbatim>\<open>analyze_component_interfaces\<close> over \<^verbatim>\<open>component.file_paths\<close>, on the
  two lists it appends to and the warnings it logs. A file that does not end in
  \<^verbatim>\<open>.h\<close> is skipped; a header is recorded as provided before it is read, and a
  header that cannot be read contributes no requirement.
\<close>

fun analyze_files ::
  "file_tree \<Rightarrow> string list \<Rightarrow> string list \<times> string list \<times> log_record list
     \<Rightarrow> string list \<times> string list \<times> log_record list" where
  "analyze_files fs [] acc = acc"
| "analyze_files fs (path # paths) (provided, required, log) =
     (if \<not> endswith path ''.h'' then analyze_files fs paths (provided, required, log)
      else (case fs path of
              Inr content \<Rightarrow>
                analyze_files fs paths
                  (provided @ [path_name path], required @ required_of_content content, log)
            | Inl e \<Rightarrow>
                analyze_files fs paths
                  (provided @ [path_name path], required,
                   log @ [(WARNING, ''Could not analyze '' @ path @ '': '' @ e)])))"

definition analyze_component_interfaces ::
  "file_tree \<Rightarrow> AgentComponent \<Rightarrow> AgentComponent \<times> log_record list" where
  "analyze_component_interfaces fs c =
     (case analyze_files fs (file_paths c)
             (interfaces_provided c, interfaces_required c, []) of
        (provided, required, log) \<Rightarrow>
          (c\<lparr>interfaces_provided := list_set provided,
                interfaces_required := list_set required\<rparr>, log))"

section \<open>DependencyValidator\<close>

text \<open>
  A Python \<^verbatim>\<open>dict\<close> keeps its keys in insertion order: it is an association list with
  distinct keys. \<open>add_provider\<close> is the body of the provider loop
  (\<^verbatim>\<open>if interface not in interface_providers: ... = []\<close>, then \<^verbatim>\<open>append\<close>);
  \<open>dict_set\<close> is the assignment \<^verbatim>\<open>d[k] = v\<close>.
\<close>

type_synonym provider_map = "(string \<times> string list) list"

fun add_provider :: "string \<Rightarrow> string \<Rightarrow> provider_map \<Rightarrow> provider_map" where
  "add_provider i n [] = [(i, [n])]"
| "add_provider i n ((k, ps) # m) =
     (if k = i then (k, ps @ [n]) # m else (k, ps) # add_provider i n m)"

definition build_interface_providers :: "AgentComponent list \<Rightarrow> provider_map" where
  "build_interface_providers components =
     fold (\<lambda>c m. fold (\<lambda>i m. add_provider i (comp_name c) m) (interfaces_provided c) m)
       components []"

definition unresolved_issue :: "string \<Rightarrow> string \<Rightarrow> DependencyIssue" where
  "unresolved_issue c required_interface =
     \<lparr>severity = ''error'', component = c, interface = required_interface,
      message = ''Required interface '' @ [CHR 0x27] @ required_interface @ [CHR 0x27] @
                '' is not provided by any component'',
      issue_file_path = None, line_number = None\<rparr>"

definition check_missing_interfaces :: "AgentComponent list \<Rightarrow> provider_map \<Rightarrow> DependencyIssue list" where
  "check_missing_interfaces components interface_providers =
     concat (map (\<lambda>c. map (unresolved_issue (comp_name c))
                        (filter (\<lambda>required_interface. map_of interface_providers required_interface = None)
                           (interfaces_required c)))
               components)"

text \<open>
  The dependency graph: a dict from component name to the set of the names of the other
  components that provide one of its requirements. The set is kept as the list of its
  elements in the order they are first added (Python fixes no iteration order for a
  set).
\<close>

type_synonym graph = "(string \<times> string list) list"

fun dict_set :: "string \<Rightarrow> 'v \<Rightarrow> (string \<times> 'v) list \<Rightarrow> (string \<times> 'v) list" where
  "dict_set k v [] = [(k, v)]"
| "dict_set k v ((k', v') # m) =
     (if k' = k then (k, v) # m else (k', v') # dict_set k v m)"

definition set_add :: "string \<Rightarrow> string list \<Rightarrow> string list" where
  "set_add x xs = (if x \<in> set xs then xs else xs @ [x])"

definition providers_of :: "AgentComponent list \<Rightarrow> AgentComponent \<Rightarrow> string list" where
  "providers_of components c =
     fold (\<lambda>required_interface deps.
             fold (\<lambda>other_component deps.
                     if required_interface \<in> set (interfaces_provided other_component) \<and>
                        comp_name other_component \<noteq> comp_name c
                     then set_add (comp_name other_component) deps else deps)
               components deps)
       (interfaces_required c) []"

definition build_dependency_graph :: "AgentComponent list \<Rightarrow> graph" where
  "build_dependency_graph components =
     fold (\<lambda>c g. dict_set (comp_name c) (providers_of components c) g) components []"

definition neighbors :: "graph \<Rightarrow> string \<Rightarrow> string list" where
  "neighbors g node = (case map_of g node of None \<Rightarrow> [] | Some ns \<Rightarrow> ns)"

text \<open>
  The nested function \<^verbatim>\<open>has_cycle\<close> with the two sets it shares with the enclosing
  function, passed in and returned: \<open>(visited, rec_stack)\<close>. \<open>any_cycle\<close> is its
  \<^verbatim>\<open>for neighbor in ...\<close> loop, which returns \<^verbatim>\<open>True\<close> at the first neighbour that
  does, leaving \<^verbatim>\<open>rec_stack\<close> as it is; only when the loop ends is the node removed
  from \<^verbatim>\<open>rec_stack\<close>.
\<close>

function has_cycle ::
    "graph \<Rightarrow> string \<Rightarrow> string set \<times> string set \<Rightarrow> bool \<times> string set \<times> string set"
  and any_cycle ::
    "graph \<Rightarrow> string list \<Rightarrow> string set \<times> string set \<Rightarrow> bool \<times> string set \<times> string set"
where
  "has_cycle g node (visited, rec_stack) =
     (if node \<in> rec_stack then (True, visited, rec_stack)
      else if node \<in> visited then (False, visited, rec_stack)
      else (case any_cycle g (neighbors g node) (insert node visited, insert node rec_stack) of
              (True, st) \<Rightarrow> (True, st)
            | (False, visited', rec_stack') \<Rightarrow> (False, visited', rec_stack' - {node})))"
| "any_cycle g [] st = (False, st)"
| "any_cycle g (neighbor # rest) st =
     (case has_cycle g neighbor st of
        (True, st') \<Rightarrow> (True, st')
      | (False, st') \<Rightarrow> any_cycle g rest st')"
  by pat_completeness auto

lemma visited_grows:
  "has_cycle_any_cycle_dom (Inl (g, node, st)) \<Longrightarrow> fst st \<subseteq> fst (snd (has_cycle g node st))"
  "has_cycle_any_cycle_dom (Inr (g, ns, st)) \<Longrightarrow> fst st \<subseteq> fst (snd (any_cycle g ns st))"
proof (induction g node st and g ns st rule: has_cycle_any_cycle.pinduct)
  case (1 g node visited rec_stack)
  then show ?case
    by (auto simp: has_cycle.psimps split: prod.splits bool.splits)
next
  case (2 g st)
  then show ?case by (simp add: any_cycle.psimps)
next
  case (3 g neighbor rest st)
  obtain b v r where hc: "has_cycle g neighbor st = (b, v, r)"
    by (cases "has_cycle g neighbor st") auto
  show ?case
  proof (cases b)
    case True
    with hc 3 show ?thesis by (simp add: any_cycle.psimps)
  next
    case False
    with hc 3(2) have "fst st \<subseteq> v" by simp
    moreover from 3(3) [of False "(v, r)"] hc False
    have "v \<subseteq> fst (snd (any_cycle g rest (v, r)))" by simp
    ultimately show ?thesis using hc False 3(1) by (simp add: any_cycle.psimps)
  qed
qed

text \<open>
  Termination: every call of \<open>has_cycle\<close> that goes on to the neighbours marks a node
  as visited, and the nodes with neighbours are the keys of the graph.
\<close>

termination has_cycle
proof (relation "measures [\<lambda>x. case x of Inl (g, node, st) \<Rightarrow> card (set (map fst g) - fst st)
                                        | Inr (g, ns, st) \<Rightarrow> card (set (map fst g) - fst st),
                           \<lambda>x. case x of Inl (g, node, st) \<Rightarrow> 1
                                        | Inr (g, ns, st) \<Rightarrow> 2 * length ns]", goal_cases)
  case 1
  then show ?case by simp
next
  case (2 g node visited rec_stack)
  show ?case
  proof (cases "node \<in> set (map fst g)")
    case True
    with 2 have "card (set (map fst g) - insert node visited) < card (set (map fst g) - visited)"
      by (intro psubset_card_mono) auto
    then show ?thesis by simp
  next
    case False
    then have "map_of g node = None" by (simp add: map_of_eq_None_iff)
    moreover from False have "set (map fst g) - insert node visited = set (map fst g) - visited"
      by auto
    ultimately show ?thesis by (simp add: neighbors_def)
  qed
next
  case (3 g neighbor rest st)
  then show ?case by simp
next
  case (4 g neighbor rest st x y)
  from 4(1) have "snd (has_cycle g neighbor st) = y" by (metis snd_conv)
  with visited_grows(1) [OF 4(3)] have "fst st \<subseteq> fst y" by simp
  then have "card (set (map fst g) - fst y) \<le> card (set (map fst g) - fst st)"
    by (intro card_mono) auto
  then show ?case by auto
qed

declare has_cycle.simps [simp del]

definition cycle_issue :: "string \<Rightarrow> DependencyIssue" where
  "cycle_issue component_name =
     \<lparr>severity = ''error'', component = component_name, interface = [],
      message = ''Circular dependency detected involving component '' @
                [CHR 0x27] @ component_name @ [CHR 0x27],
      issue_file_path = None, line_number = None\<rparr>"

text \<open>
  The loop \<^verbatim>\<open>for component_name in dependency_graph\<close>: the keys in insertion order,
  the two sets carried from one root to the next.
\<close>

fun check_roots :: "graph \<Rightarrow> string list \<Rightarrow> string set \<times> string set \<Rightarrow> DependencyIssue list" where
  "check_roots g [] st = []"
| "check_roots g (component_name # rest) (visited, rec_stack) =
     (if component_name \<notin> visited
      then (case has_cycle g component_name (visited, rec_stack) of
              (True, st') \<Rightarrow> cycle_issue component_name # check_roots g rest st'
            | (False, st') \<Rightarrow> check_roots g rest st')
      else check_roots g rest (visited, rec_stack))"

text \<open>
  \<^verbatim>\<open>check_circular_dependencies\<close>: the graph is built, then every key is tried as a
  root, starting with two empty sets.
\<close>

definition check_cycles_in :: "graph \<Rightarrow> DependencyIssue list" where
  "check_cycles_in dependency_graph =
     check_roots dependency_graph (map fst dependency_graph) ({}, {})"

definition check_circular_dependencies :: "AgentComponent list \<Rightarrow> DependencyIssue list" where
  "check_circular_dependencies components =
     check_cycles_in (build_dependency_graph components)"

text \<open>\<^verbatim>\<open>check_interface_ownership\<close>: one issue for every key with more than one provider.\<close>

definition critical_markers :: "string list" where
  "critical_markers = [''memory_interface'', ''process_interface'', ''filesystem_interface'']"

definition ownership_issue :: "string \<Rightarrow> string list \<Rightarrow> DependencyIssue" where
  "ownership_issue i providers =
     \<lparr>severity = (if list_ex (\<lambda>critical. str_contains critical i) critical_markers
                  then ''error'' else ''warning''),
      component = join '', '' providers,
      interface = i,
      message = ''Interface '' @ [CHR 0x27] @ i @ [CHR 0x27] @
                '' is provided by multiple components: '' @ join '', '' providers,
      issue_file_path = None, line_number = None\<rparr>"

definition check_interface_ownership :: "provider_map \<Rightarrow> DependencyIssue list" where
  "check_interface_ownership interface_providers =
     map (\<lambda>(i, providers). ownership_issue i providers)
       (filter (\<lambda>(i, providers). length providers > 1) interface_providers)"

text \<open>
  \<^verbatim>\<open>validate_interface_compatibility\<close>: \<^verbatim>\<open>self.issues\<close> is reset, then the three checks
  append to it in this order.
\<close>

definition validate_interface_compatibility :: "AgentComponent list \<Rightarrow> DependencyIssue list" where
  "validate_interface_compatibility components =
     (let interface_providers = build_interface_providers components
      in check_missing_interfaces components interface_providers @
         check_circular_dependencies components @
         check_interface_ownership interface_providers)"

section \<open>CompatibilityChecker\<close>

text \<open>
  \<^verbatim>\<open>set(previous.xs) - set(current.xs)\<close>, iterated: the names of the first list that
  are not in the second, each once (in an order Python does not fix).
\<close>

definition set_difference :: "string list \<Rightarrow> string list \<Rightarrow> string list" where
  "set_difference xs ys = remdups (filter (\<lambda>x. x \<notin> set ys) xs)"

definition removed_message :: "string \<Rightarrow> string \<Rightarrow> string" where
  "removed_message kind symbol =
     kind @ '' '' @ [CHR 0x27] @ symbol @ [CHR 0x27] @
     '' was removed - this is a breaking change''"

definition compare_interfaces :: "InterfaceDefinition \<Rightarrow> InterfaceDefinition \<Rightarrow> string list" where
  "compare_interfaces previous current =
     map (removed_message ''Function'')
       (set_difference (functions' previous) (functions' current)) @
     map (removed_message ''Structure'')
       (set_difference (structures previous) (structures current)) @
     map (removed_message ''Constant'')
       (set_difference (constants previous) (constants current))"

text \<open>
  What \<^verbatim>\<open>check_interface_changes\<close> asks of the world outside the program:
  \<^item> \<open>diff_names base\<close>: the lines of \<^verbatim>\<open>git diff --name-only base HEAD -- *.h\<close>
    (\<open>Inl\<close>: the call raises);
  \<^item> \<open>full_path p\<close>: \<^verbatim>\<open>str(self.project_root / p)\<close>;
  \<^item> \<open>path_exists\<close> of it: \<^verbatim>\<open>full_path.exists()\<close>, which returns a truth value or
    raises (\<open>Inl\<close>): the library lets every \<^verbatim>\<open>OSError\<close> pass but those for a
    missing file, a component that is no directory, a bad descriptor and a loop of
    links, so a directory that may not be searched makes it raise
    \<^verbatim>\<open>PermissionError\<close>;
  \<^item> \<open>show_previous base p\<close>: the output of \<^verbatim>\<open>git show base:p\<close>, written to a
    temporary file and read back as written (\<open>Inr None\<close>: the return code is not 0;
    \<open>Inl\<close>: the call or the writing of the file raises);
  \<^item> \<open>temp_path\<close>: the name of the temporary file.
\<close>

record revision_source =
  diff_names :: "string \<Rightarrow> string + string list"
  full_path :: "string \<Rightarrow> string"
  path_exists :: "string \<Rightarrow> string + bool"
  show_previous :: "string \<Rightarrow> string \<Rightarrow> string + string option"
  temp_path :: string

definition change_issue :: "string \<Rightarrow> InterfaceDefinition \<Rightarrow> string \<Rightarrow> DependencyIssue" where
  "change_issue path current_interface change =
     \<lparr>severity = ''error'', component = path_parent_name path,
      interface = name current_interface, message = change,
      issue_file_path = Some path, line_number = None\<rparr>"

text \<open>
  The body of the loop over the changed files, for one file. The test
  \<^verbatim>\<open>full_path.exists()\<close> stands outside the inner \<^verbatim>\<open>try\<close>: when it raises, the
  exception leaves the loop (\<open>Inl\<close>). What raises inside the inner \<^verbatim>\<open>try\<close> is
  logged as a warning there and the loop goes on with no issue for the file.
\<close>

definition changes_of_file ::
  "revision_source \<Rightarrow> file_tree \<Rightarrow> string \<Rightarrow> string \<Rightarrow> string + DependencyIssue list" where
  "changes_of_file env fs base_commit path =
     (if path = [] \<or> \<not> endswith path ''.h'' then Inr []
      else (case path_exists env (full_path env path) of
              Inl e \<Rightarrow> Inl e
            | Inr False \<Rightarrow> Inr []
            | Inr True \<Rightarrow>
                (let current_interface = fst (parse_header_file fs (full_path env path))
                 in case show_previous env base_commit path of
                      Inl e \<Rightarrow> Inr []
                    | Inr None \<Rightarrow> Inr []
                    | Inr (Some previous_text) \<Rightarrow>
                        (let previous_interface =
                               fst (parse_header_file (fs(temp_path env := Inr previous_text))
                                      (temp_path env))
                         in Inr (map (change_issue path current_interface)
                                   (compare_interfaces previous_interface current_interface))))))"

text \<open>
  The loop \<^verbatim>\<open>for file_path in changed_files\<close> inside the outer \<^verbatim>\<open>try\<close>: an
  exception that leaves the body is caught by the outer \<^verbatim>\<open>except\<close>, which logs an
  error, and the function returns the issues collected so far; the files after it are
  not looked at.
\<close>

fun changed_files_loop ::
  "revision_source \<Rightarrow> file_tree \<Rightarrow> string \<Rightarrow> string list \<Rightarrow> DependencyIssue list" where
  "changed_files_loop env fs base_commit [] = []"
| "changed_files_loop env fs base_commit (path # rest) =
     (case changes_of_file env fs base_commit path of
        Inl e \<Rightarrow> []
      | Inr issues \<Rightarrow> issues @ changed_files_loop env fs base_commit rest)"

definition check_interface_changes ::
  "revision_source \<Rightarrow> file_tree \<Rightarrow> string \<Rightarrow> DependencyIssue list" where
  "check_interface_changes env fs base_commit =
     (case diff_names env base_commit of
        Inl e \<Rightarrow> []
      | Inr changed_files \<Rightarrow> changed_files_loop env fs base_commit changed_files)"

section \<open>main\<close>

text \<open>
  The issue list \<^verbatim>\<open>main\<close> hands to the reporter and counts for the exit status:
  the components found by \<^verbatim>\<open>discover_components\<close> are analysed one by one, the
  validator's issues come first, and the differ's issues are appended when
  \<^verbatim>\<open>--check-changes\<close> is given (and not empty).
\<close>

definition main_issues ::
  "file_tree \<Rightarrow> revision_source \<Rightarrow> AgentComponent list \<Rightarrow> string option \<Rightarrow> DependencyIssue list" where
  "main_issues fs env discovered check_changes =
     (let components = map (\<lambda>c. fst (analyze_component_interfaces fs c)) discovered;
          issues = validate_interface_compatibility components
      in case check_changes of
           None \<Rightarrow> issues
         | Some base_commit \<Rightarrow>
             if base_commit = [] then issues
             else issues @ check_interface_changes env fs base_commit)"

section \<open>Notions of the statements and concrete inputs\<close>

text \<open>
  Two components that both provide \<^verbatim>\<open>types.h\<close>, one of them requiring an interface
  nobody provides; a repository in which \<^verbatim>\<open>kernel/include/api.h\<close> lost the
  declaration of \<^verbatim>\<open>gone\<close> since the base commit.
\<close>

definition example_components :: "AgentComponent list" where
  "example_components =
     [\<lparr>comp_name = ''A'', agent_type = ''a'', file_paths = [],
       interfaces_provided = [''types.h''], interfaces_required = [''hal_interface.h''],
       comp_dependencies = []\<rparr>,
      \<lparr>comp_name = ''B'', agent_type = ''b'', file_paths = [],
       interfaces_provided = [''types.h''], interfaces_required = [],
       comp_dependencies = []\<rparr>]"

definition example_tree :: file_tree where
  "example_tree path =
     (if path = ''/repo/kernel/include/api.h'' then Inr ''int keep(void); ''
      else Inl ''No such file or directory'')"

definition example_source :: revision_source where
  "example_source =
     \<lparr>diff_names = (\<lambda>base. Inr [''kernel/include/api.h'']),
      full_path = (\<lambda>p. ''/repo/'' @ p),
      path_exists = (\<lambda>p. Inr (p = ''/repo/kernel/include/api.h'')),
      show_previous = (\<lambda>base p. Inr (Some ''int keep(void); int gone(void); '')),
      temp_path = ''/tmp/tmp0.h''\<rparr>"

text \<open>
  Two revisions of one descriptor: nothing of the previous one is missing in the current
  one, which adds a function, a structure and a constant.
\<close>

definition example_previous :: InterfaceDefinition where
  "example_previous =
     \<lparr>name = ''api'', file_path = ''/tmp/tmp0.h'', functions' = [''keep'', ''keep''],
      structures = [''node_t''], constants = [''MAX_NODES''], version = ''1.0.0'',
      dependencies = []\<rparr>"

definition example_current :: InterfaceDefinition where
  "example_current =
     \<lparr>name = ''api'', file_path = ''/repo/kernel/include/api.h'',
      functions' = [''added'', ''keep''], structures = [''node_t'', ''list_t''],
      constants = [''MAX_NODES'', ''MIN_NODES''], version = ''1.0.0'', dependencies = []\<rparr>"

text \<open>Two components that both provide \<^verbatim>\<open>memory_interface.h\<close>.\<close>

definition example_owners :: "AgentComponent list" where
  "example_owners =
     [\<lparr>comp_name = ''A'', agent_type = ''a'', file_paths = [],
       interfaces_provided = [''memory_interface.h'', ''types.h''], interfaces_required = [],
       comp_dependencies = []\<rparr>,
      \<lparr>comp_name = ''B'', agent_type = ''b'', file_paths = [],
       interfaces_provided = [''memory_interface.h''], interfaces_required = [],
       comp_dependencies = []\<rparr>]"

text \<open>
  A file tree with two kernel headers, one of which includes the other by its path, a
  bare include and a \<^verbatim>\<open>std\<close> include; a source file; and a driver header with a bare
  include only. Every other path cannot be read.
\<close>

definition example_headers :: file_tree where
  "example_headers path =
     (if path = ''kernel/include/api.h''
      then Inr (''#include '' @ [CHR 0x22] @ ''memory_interface.h'' @ [CHR 0x22] @
                '' #include <kernel/include/types.h> #include <std/x.h>'')
      else if path = ''kernel/include/types.h''
      then Inr ''typedef struct node { int x; } node_t;''
      else if path = ''kernel/main.c''
      then Inr ''#include <drivers/pci.h>''
      else if path = ''drivers/bare.h''
      then Inr (''#include '' @ [CHR 0x22] @ ''memory_interface.h'' @ [CHR 0x22])
      else Inl ''No such file or directory'')"

definition example_kernel :: AgentComponent where
  "example_kernel =
     \<lparr>comp_name = ''kernel-architect-component'', agent_type = ''kernel-architect'',
      file_paths = [''kernel/main.c'', ''kernel/include/api.h'', ''kernel/include/types.h''],
      interfaces_provided = [], interfaces_required = [], comp_dependencies = []\<rparr>"

definition example_driver :: AgentComponent where
  "example_driver =
     \<lparr>comp_name = ''driver-integration-specialist-component'',
      agent_type = ''driver-integration-specialist'',
      file_paths = [''drivers/bare.h''],
      interfaces_provided = [], interfaces_required = [], comp_dependencies = []\<rparr>"

text \<open>The analysed kernel component and a component that requires its \<^verbatim>\<open>api.h\<close>.\<close>

definition example_pair :: "AgentComponent list" where
  "example_pair =
     [fst (analyze_component_interfaces example_headers example_kernel),
      \<lparr>comp_name = ''ui-designer-component'', agent_type = ''ui-designer'', file_paths = [],
       interfaces_provided = [''window.h''], interfaces_required = [''api.h''],
       comp_dependencies = []\<rparr>]"

text \<open>The paths \<^verbatim>\<open>analyze_component_interfaces\<close> does not skip.\<close>

definition header_paths :: "string list \<Rightarrow> string list" where
  "header_paths paths = filter (\<lambda>path. endswith path ''.h'') paths"

text \<open>
  Cycles. The edges of a graph as the traversal reads them, and what it means for a node
  to reach a cycle of a relation. \<open>depends_on\<close> follows the words of the
  specification: an edge from component A to component B exists if and only if some
  interface A requires is provided by B and B is not A.
\<close>

definition edges :: "graph \<Rightarrow> (string \<times> string) set" where
  "edges g = {(a, b). b \<in> set (neighbors g a)}"

definition reaches_cycle :: "(string \<times> string) set \<Rightarrow> string \<Rightarrow> bool" where
  "reaches_cycle E a = (\<exists>x. (a, x) \<in> E\<^sup>* \<and> (x, x) \<in> E\<^sup>+)"

definition depends_on :: "AgentComponent list \<Rightarrow> (string \<times> string) set" where
  "depends_on components =
     {(comp_name a, comp_name b) | a b.
        a \<in> set components \<and> b \<in> set components \<and> comp_name b \<noteq> comp_name a \<and>
        set (interfaces_required a) \<inter> set (interfaces_provided b) \<noteq> {}}"

text \<open>
  Python fixes no order for the iteration over a set: \<open>iteration_order_of g h\<close> says
  that \<open>g\<close> has the keys of \<open>h\<close>, in the same order, and for every key the elements
  of the neighbour set of \<open>h\<close>, each once, in some order.
\<close>

definition iteration_order_of :: "graph \<Rightarrow> graph \<Rightarrow> bool" where
  "iteration_order_of g h =
     list_all2 (\<lambda>(k, ns) (k', ns'). k = k' \<and> distinct ns \<and> set ns = set ns') g h"

text \<open>
  The invariant of the traversal: a node on \<^verbatim>\<open>rec_stack\<close> either lies on the path to
  the node being visited or reaches a cycle (it was left there by a call that returned
  \<^verbatim>\<open>True\<close>); \<open>result_ok\<close> is what a call guarantees in return.
\<close>

definition stack_ok :: "graph \<Rightarrow> string set \<Rightarrow> string \<Rightarrow> bool" where
  "stack_ok g R node = (\<forall>x \<in> R. (x, node) \<in> (edges g)\<^sup>+ \<or> reaches_cycle (edges g) x)"

definition stack_ok' :: "graph \<Rightarrow> string set \<Rightarrow> string \<Rightarrow> bool" where
  "stack_ok' g R p = (\<forall>x \<in> R. (x, p) \<in> (edges g)\<^sup>* \<or> reaches_cycle (edges g) x)"

definition result_ok :: "graph \<Rightarrow> string set \<Rightarrow> string \<Rightarrow> bool \<times> string set \<times> string set \<Rightarrow> bool" where
  "result_ok g R node res =
     (if fst res then reaches_cycle (edges g) node \<and> (\<forall>x \<in> snd (snd res). reaches_cycle (edges g) x)
      else snd (snd res) = R)"

text \<open>
  Three components of which \<^verbatim>\<open>A\<close> and \<^verbatim>\<open>B\<close> require each other and \<^verbatim>\<open>C\<close>
  requires \<^verbatim>\<open>A\<close>, with \<^verbatim>\<open>C\<close> first in the list and with \<^verbatim>\<open>C\<close> last; and three
  components in a ring.
\<close>

definition example_cycle :: "AgentComponent list" where
  "example_cycle =
     [\<lparr>comp_name = ''C'', agent_type = ''c'', file_paths = [],
       interfaces_provided = [''c.h''], interfaces_required = [''a.h''],
       comp_dependencies = []\<rparr>,
      \<lparr>comp_name = ''A'', agent_type = ''a'', file_paths = [],
       interfaces_provided = [''a.h''], interfaces_required = [''b.h''],
       comp_dependencies = []\<rparr>,
      \<lparr>comp_name = ''B'', agent_type = ''b'', file_paths = [],
       interfaces_provided = [''b.h''], interfaces_required = [''a.h''],
       comp_dependencies = []\<rparr>]"

definition example_cycle_late :: "AgentComponent list" where
  "example_cycle_late =
     [\<lparr>comp_name = ''A'', agent_type = ''a'', file_paths = [],
       interfaces_provided = [''a.h''], interfaces_required = [''b.h''],
       comp_dependencies = []\<rparr>,
      \<lparr>comp_name = ''B'', agent_type = ''b'', file_paths = [],
       interfaces_provided = [''b.h''], interfaces_required = [''a.h''],
       comp_dependencies = []\<rparr>,
      \<lparr>comp_name = ''C'', agent_type = ''c'', file_paths = [],
       interfaces_provided = [''c.h''], interfaces_required = [''a.h''],
       comp_dependencies = []\<rparr>]"

definition example_ring :: "AgentComponent list" where
  "example_ring =
     [\<lparr>comp_name = ''A'', agent_type = ''a'', file_paths = [],
       interfaces_provided = [''a.h''], interfaces_required = [''b.h''],
       comp_dependencies = []\<rparr>,
      \<lparr>comp_name = ''B'', agent_type = ''b'', file_paths = [],
       interfaces_provided = [''b.h''], interfaces_required = [''c.h''],
       comp_dependencies = []\<rparr>,
      \<lparr>comp_name = ''C'', agent_type = ''c'', file_paths = [],
       interfaces_provided = [''c.h''], interfaces_required = [''a.h''],
       comp_dependencies = []\<rparr>]"

text \<open>
  The order the specification asks of the final list: by severity rank (error before
  warning before info), then by component name, then by interface name; strings compare
  as in Python, by code points.
\<close>

definition severity_rank :: "string \<Rightarrow> nat" where
  "severity_rank s =
     (if s = ''error'' then 0 else if s = ''warning'' then 1 else if s = ''info'' then 2 else 3)"

fun str_le :: "string \<Rightarrow> string \<Rightarrow> bool" where
  "str_le [] t = True"
| "str_le (c # cs) [] = False"
| "str_le (c # cs) (d # ds) =
     ((of_char c :: nat) < of_char d \<or> (c = d \<and> str_le cs ds))"

definition issue_le :: "DependencyIssue \<Rightarrow> DependencyIssue \<Rightarrow> bool" where
  "issue_le a b =
     (severity_rank (severity a) < severity_rank (severity b) \<or>
      (severity_rank (severity a) = severity_rank (severity b) \<and>
       (component a \<noteq> component b \<and> str_le (component a) (component b) \<or>
        (component a = component b \<and> str_le (interface a) (interface b)))))"

definition sorted_issues :: "DependencyIssue list \<Rightarrow> bool" where
  "sorted_issues issues = sorted_wrt issue_le issues"

text \<open>A header that defines the same constant in both branches of a conditional.\<close>

definition example_config_tree :: file_tree where
  "example_config_tree path =
     (if path = ''kernel/include/limits.h''
      then Inr ''#ifdef SMALL #define MAX_NODES 16 #else #define MAX_NODES 32 #endif ''
      else Inl ''No such file or directory'')"

text \<open>
  A repository in which the changed file \<^verbatim>\<open>locked.h\<close> exists but may not be read,
  listed before \<^verbatim>\<open>api.h\<close>, which lost the declaration of \<^verbatim>\<open>gone\<close>; and one in which
  the first changed file lies in a directory that may not be searched, so that the test
  for its existence raises.
\<close>

definition example_locked_tree :: file_tree where
  "example_locked_tree path =
     (if path = ''/repo/kernel/include/api.h'' then Inr ''int keep(void); ''
      else if path = ''/repo/kernel/include/locked.h''
      then Inl (''[Errno 13] Permission denied: '' @ [CHR 0x27] @ path @ [CHR 0x27])
      else Inl (''[Errno 2] No such file or directory: '' @ [CHR 0x27] @ path @ [CHR 0x27]))"

definition example_locked_source :: revision_source where
  "example_locked_source =
     \<lparr>diff_names = (\<lambda>base. Inr [''kernel/include/locked.h'', ''kernel/include/api.h'']),
      full_path = (\<lambda>p. ''/repo/'' @ p),
      path_exists = (\<lambda>p. Inr True),
      show_previous = (\<lambda>base p. Inr (Some ''int keep(void); int gone(void); '')),
      temp_path = ''/tmp/tmp0.h''\<rparr>"

definition example_unsearchable_source :: revision_source where
  "example_unsearchable_source =
     \<lparr>diff_names = (\<lambda>base. Inr [''locked_dir/a.h'', ''kernel/include/api.h'']),
      full_path = (\<lambda>p. ''/repo/'' @ p),
      path_exists = (\<lambda>p. if p = ''/repo/locked_dir/a.h''
                          then Inl (''[Errno 13] Permission denied: '' @ [CHR 0x27] @ p @ [CHR 0x27])
                          else Inr True),
      show_previous = (\<lambda>base p. Inr (Some ''int keep(void); int gone(void); '')),
      temp_path = ''/tmp/tmp0.h''\<rparr>"

section \<open>Severities of the issues\<close>

lemma severity_unresolved_issue [simp]: "severity (unresolved_issue c i) = ''error''"
  by (simp add: unresolved_issue_def)

lemma severity_cycle_issue [simp]: "severity (cycle_issue c) = ''error''"
  by (simp add: cycle_issue_def)

lemma severity_change_issue [simp]: "severity (change_issue p cur m) = ''error''"
  by (simp add: change_issue_def)

lemma severity_ownership_issue:
  "severity (ownership_issue i ps) = ''error'' \<or> severity (ownership_issue i ps) = ''warning''"
  by (simp add: ownership_issue_def)

lemma check_roots_cases:
  "i \<in> set (check_roots g ns st) \<Longrightarrow> \<exists>n \<in> set ns. i = cycle_issue n"
proof (induction ns arbitrary: st)
  case Nil
  then show ?case by simp
next
  case (Cons n ns)
  obtain visited rec_stack where st: "st = (visited, rec_stack)" by (cases st)
  obtain b st' where hc: "has_cycle g n (visited, rec_stack) = (b, st')"
    by (cases "has_cycle g n (visited, rec_stack)")
  from Cons.prems st hc have "i = cycle_issue n \<or> i \<in> set (check_roots g ns st') \<or>
      i \<in> set (check_roots g ns (visited, rec_stack))"
    by (cases b) (auto split: if_splits)
  with Cons.IH [of st'] Cons.IH [of "(visited, rec_stack)"] show ?case by fastforce
qed

lemma severity_missing:
  "i \<in> set (check_missing_interfaces cs m) \<Longrightarrow> severity i = ''error''"
  by (auto simp: check_missing_interfaces_def)

lemma severity_cycles:
  "i \<in> set (check_circular_dependencies cs) \<Longrightarrow> severity i = ''error''"
  by (auto simp: check_circular_dependencies_def check_cycles_in_def dest!: check_roots_cases)

lemma severity_ownership:
  "i \<in> set (check_interface_ownership m) \<Longrightarrow> severity i = ''error'' \<or> severity i = ''warning''"
  using severity_ownership_issue by (auto simp: check_interface_ownership_def)

lemma validate_parts:
  "set (validate_interface_compatibility cs) =
     set (check_missing_interfaces cs (build_interface_providers cs)) \<union>
     set (check_circular_dependencies cs) \<union>
     set (check_interface_ownership (build_interface_providers cs))"
  by (auto simp: validate_interface_compatibility_def Let_def)

lemma severity_validate:
  assumes "i \<in> set (validate_interface_compatibility cs)"
  shows "severity i = ''error'' \<or> severity i = ''warning''"
proof -
  from assms consider "i \<in> set (check_missing_interfaces cs (build_interface_providers cs))"
    | "i \<in> set (check_circular_dependencies cs)"
    | "i \<in> set (check_interface_ownership (build_interface_providers cs))"
    by (auto simp: validate_parts)
  then show ?thesis
  proof cases
    case 1
    then show ?thesis by (simp add: severity_missing)
  next
    case 2
    then show ?thesis by (simp add: severity_cycles)
  next
    case 3
    then show ?thesis by (rule severity_ownership)
  qed
qed

lemma severity_changes_of_file:
  "changes_of_file env fs base p = Inr issues \<Longrightarrow> i \<in> set issues \<Longrightarrow> severity i = ''error''"
  by (auto simp: changes_of_file_def Let_def split: if_splits sum.splits option.splits bool.splits)

lemma severity_changed_files_loop:
  "i \<in> set (changed_files_loop env fs base files) \<Longrightarrow> severity i = ''error''"
proof (induction files)
  case Nil
  then show ?case by simp
next
  case (Cons p files)
  show ?case
  proof (cases "changes_of_file env fs base p")
    case (Inl e)
    with Cons.prems show ?thesis by simp
  next
    case (Inr issues)
    with Cons.prems have "i \<in> set issues \<or> i \<in> set (changed_files_loop env fs base files)"
      by simp
    with Inr Cons.IH show ?thesis by (auto dest: severity_changes_of_file)
  qed
qed

lemma severity_changes:
  "i \<in> set (check_interface_changes env fs base) \<Longrightarrow> severity i = ''error''"
  by (auto simp: check_interface_changes_def split: sum.splits dest: severity_changed_files_loop)

text \<open>
  Claim C10. Every issue of the validator has severity \<^verbatim>\<open>error\<close> or \<^verbatim>\<open>warning\<close>,
  every issue of the differ has severity \<^verbatim>\<open>error\<close>; so has every issue of the list
  \<^verbatim>\<open>main\<close> builds from them, and the number of \<^verbatim>\<open>info\<close> issues of a run is zero.
\<close>

theorem no_info_issue:
  "(\<forall>i \<in> set (validate_interface_compatibility components).
      severity i = ''error'' \<or> severity i = ''warning'') \<and>
   (\<forall>i \<in> set (check_interface_changes env fs base_commit). severity i = ''error'') \<and>
   (\<forall>i \<in> set (main_issues fs env discovered check_changes).
      severity i = ''error'' \<or> severity i = ''warning'') \<and>
   length (filter (\<lambda>i. severity i = ''info'') (main_issues fs env discovered check_changes)) = 0"
proof -
  have m: "severity i = ''error'' \<or> severity i = ''warning''"
    if "i \<in> set (main_issues fs env discovered check_changes)" for i
    using that severity_validate severity_changes
    by (auto simp: main_issues_def Let_def split: option.splits if_splits)
  have "severity i \<noteq> ''info''"
    if "i \<in> set (main_issues fs env discovered check_changes)" for i
    using m [OF that] by auto
  then have "filter (\<lambda>i. severity i = ''info'') (main_issues fs env discovered check_changes) = []"
    by (simp add: filter_empty_conv)
  with m severity_validate severity_changes show ?thesis by auto
qed

theorem no_info_issue_witness:
  "ownership_issue ''types.h'' [''A'', ''B''] \<in> set (validate_interface_compatibility example_components) \<and>
   severity (ownership_issue ''types.h'' [''A'', ''B'']) = ''warning'' \<and>
   change_issue ''kernel/include/api.h'' (empty_interface ''/repo/kernel/include/api.h'')
       (removed_message ''Function'' ''gone'')
     \<in> set (check_interface_changes example_source example_tree ''HEAD~1'') \<and>
   unresolved_issue ''A'' ''hal_interface.h''
     \<in> set (main_issues example_tree example_source example_components (Some ''HEAD~1'')) \<and>
   length (filter (\<lambda>i. severity i = ''info'')
     (main_issues example_tree example_source example_components (Some ''HEAD~1''))) = 0"
proof -
  have v: "validate_interface_compatibility example_components =
      [unresolved_issue ''A'' ''hal_interface.h'', ownership_issue ''types.h'' [''A'', ''B'']]"
    by code_simp
  have c: "check_interface_changes example_source example_tree ''HEAD~1'' =
      [change_issue ''kernel/include/api.h'' (empty_interface ''/repo/kernel/include/api.h'')
         (removed_message ''Function'' ''gone'')]"
    by code_simp
  have a: "map (\<lambda>c. fst (analyze_component_interfaces example_tree c)) example_components =
      example_components"
    by code_simp
  have w: "severity (ownership_issue ''types.h'' [''A'', ''B'']) \<noteq> ''error''"
    by code_simp
  from a v have m: "unresolved_issue ''A'' ''hal_interface.h''
      \<in> set (main_issues example_tree example_source example_components (Some ''HEAD~1''))"
    by (simp add: main_issues_def)
  from no_info_issue [of example_components example_source example_tree "''HEAD~1''"
      example_components "Some ''HEAD~1''"] v c w m
  show ?thesis by simp
qed

section \<open>Breaking changes\<close>

lemma set_set_difference [simp]: "set (set_difference xs ys) = set xs - set ys"
  by (auto simp: set_difference_def)

lemma distinct_set_difference [simp]: "distinct (set_difference xs ys)"
  by (simp add: set_difference_def)

lemma length_set_difference: "length (set_difference xs ys) = card (set xs - set ys)"
  using distinct_card [of "set_difference xs ys"] by simp

lemma removed_message_inj [simp]: "removed_message k a = removed_message k b \<longleftrightarrow> a = b"
  by (simp add: removed_message_def)

lemma inj_removed_message: "inj_on (removed_message k) A"
  by (simp add: inj_on_def)

lemma removed_message_kinds [simp]:
  "removed_message ''Function'' a \<noteq> removed_message ''Structure'' b"
  "removed_message ''Function'' a \<noteq> removed_message ''Constant'' b"
  "removed_message ''Structure'' a \<noteq> removed_message ''Constant'' b"
  by (simp_all add: removed_message_def)

text \<open>
  Claim C5. The messages of \<^verbatim>\<open>compare_interfaces\<close> are exactly the removal messages
  of the functions of \<open>P\<close> that are no functions of \<open>C\<close>, of the structures of \<open>P\<close>
  that are no structures of \<open>C\<close> and of the constants of \<open>P\<close> that are no constants
  of \<open>C\<close>; no message occurs twice, so there is one message for each removed name;
  and when every function, structure and constant of \<open>P\<close> is one of \<open>C\<close>, the
  list is empty, whatever \<open>C\<close> adds.
\<close>

theorem compare_interfaces_removed:
  "set (compare_interfaces P C) =
     removed_message ''Function'' ` (set (functions' P) - set (functions' C)) \<union>
     removed_message ''Structure'' ` (set (structures P) - set (structures C)) \<union>
     removed_message ''Constant'' ` (set (constants P) - set (constants C)) \<and>
   distinct (compare_interfaces P C) \<and>
   length (compare_interfaces P C) =
     card (set (functions' P) - set (functions' C)) +
     card (set (structures P) - set (structures C)) +
     card (set (constants P) - set (constants C)) \<and>
   (set (functions' P) \<subseteq> set (functions' C) \<and> set (structures P) \<subseteq> set (structures C) \<and>
    set (constants P) \<subseteq> set (constants C) \<longrightarrow> compare_interfaces P C = [])"
proof -
  have d: "distinct (compare_interfaces P C)"
    by (auto simp: compare_interfaces_def distinct_map inj_removed_message)
  have e: "compare_interfaces P C = []"
    if "set (functions' P) \<subseteq> set (functions' C)" "set (structures P) \<subseteq> set (structures C)"
       "set (constants P) \<subseteq> set (constants C)"
  proof -
    from that have "set (compare_interfaces P C) = {}"
      by (auto simp: compare_interfaces_def)
    then show ?thesis by simp
  qed
  show ?thesis using d e
    by (auto simp: compare_interfaces_def length_set_difference)
qed

theorem compare_interfaces_removed_witness:
  "set (functions' example_previous) \<subseteq> set (functions' example_current) \<and>
   set (structures example_previous) \<subseteq> set (structures example_current) \<and>
   set (constants example_previous) \<subseteq> set (constants example_current) \<and>
   compare_interfaces example_previous example_current = []"
proof -
  have h: "set (functions' example_previous) \<subseteq> set (functions' example_current) \<and>
     set (structures example_previous) \<subseteq> set (structures example_current) \<and>
     set (constants example_previous) \<subseteq> set (constants example_current)"
    by (simp add: example_previous_def example_current_def)
  with compare_interfaces_removed [of example_previous example_current] show ?thesis
    by blast
qed

section \<open>Interface ownership\<close>

lemma str_contains_sublist: "str_contains p s \<longleftrightarrow> sublist p s"
  by (induction s) (auto simp: sublist_Cons_right)

lemma list_ex_markers:
  "list_ex (\<lambda>critical. str_contains critical i) critical_markers \<longleftrightarrow>
     (\<exists>critical \<in> set critical_markers. sublist critical i)"
  by (simp add: list_ex_iff str_contains_sublist)

lemma filter_ownership:
  "distinct (map fst m) \<Longrightarrow> (i, ps) \<in> set m \<Longrightarrow>
     filter (\<lambda>x. interface x = i) (check_interface_ownership m) =
       (if length ps > 1 then [ownership_issue i ps] else [])"
proof (induction m)
  case Nil
  then show ?case by simp
next
  case (Cons e m)
  obtain k qs where e: "e = (k, qs)" by (cases e)
  have none: "filter (\<lambda>x. interface x = i) (check_interface_ownership m) = []"
    if "i \<notin> fst ` set m"
    using that by (force simp: check_interface_ownership_def filter_empty_conv ownership_issue_def)
  show ?case
  proof (cases "k = i")
    case True
    with Cons.prems e have "qs = ps" "i \<notin> fst ` set m" by force+
    with True e none show ?thesis
      by (simp add: check_interface_ownership_def ownership_issue_def)
  next
    case False
    with Cons.prems e have "(i, ps) \<in> set m" "distinct (map fst m)" by auto
    with Cons.IH have "filter (\<lambda>x. interface x = i) (check_interface_ownership m) =
       (if length ps > 1 then [ownership_issue i ps] else [])" by simp
    with False e show ?thesis
      by (simp add: check_interface_ownership_def ownership_issue_def)
  qed
qed

text \<open>The provider map the validator builds has the provided interfaces as its keys, each once.\<close>

lemma keys_add_provider [simp]: "fst ` set (add_provider i n m) = insert i (fst ` set m)"
  by (induction i n m rule: add_provider.induct) auto

lemma distinct_add_provider:
  "distinct (map fst m) \<Longrightarrow> distinct (map fst (add_provider i n m))"
proof (induction i n m rule: add_provider.induct)
  case (1 i n)
  then show ?case by simp
next
  case (2 i n k ps m)
  have "fst ` set (add_provider i n m) = insert i (fst ` set m)" by simp
  with 2 show ?case by auto
qed

lemma keys_fold_interfaces:
  "fst ` set (fold (\<lambda>i m. add_provider i n m) is m) = set is \<union> fst ` set m"
  by (induction "is" arbitrary: m) auto

lemma distinct_fold_interfaces:
  "distinct (map fst m) \<Longrightarrow> distinct (map fst (fold (\<lambda>i m. add_provider i n m) is m))"
  by (induction "is" arbitrary: m) (auto simp: distinct_add_provider)

lemma keys_fold_components:
  "fst ` set (fold (\<lambda>c m. fold (\<lambda>i m. add_provider i (comp_name c) m) (interfaces_provided c) m) cs m) =
     (\<Union>c \<in> set cs. set (interfaces_provided c)) \<union> fst ` set m"
  by (induction cs arbitrary: m) (auto simp: keys_fold_interfaces)

lemma distinct_fold_components:
  "distinct (map fst m) \<Longrightarrow>
   distinct (map fst (fold (\<lambda>c m. fold (\<lambda>i m. add_provider i (comp_name c) m) (interfaces_provided c) m) cs m))"
  by (induction cs arbitrary: m) (auto simp: distinct_fold_interfaces)

lemma keys_build_interface_providers:
  "fst ` set (build_interface_providers cs) = (\<Union>c \<in> set cs. set (interfaces_provided c))"
  by (simp add: build_interface_providers_def keys_fold_components)

lemma distinct_build_interface_providers:
  "distinct (map fst (build_interface_providers cs))"
  by (simp add: build_interface_providers_def distinct_fold_components)

text \<open>
  Claim C4. In a provider map (a dict: every interface is a key once), an interface
  with more than one provider yields exactly one ownership issue, and an interface
  with one provider none; the issue names all providers, joined by a comma and a
  space, and its severity is \<^verbatim>\<open>error\<close> if and only if the interface name contains
  \<^verbatim>\<open>memory_interface\<close>, \<^verbatim>\<open>process_interface\<close> or \<^verbatim>\<open>filesystem_interface\<close>,
  and \<^verbatim>\<open>warning\<close> otherwise.
\<close>

theorem ownership_one_issue_per_shared_interface:
  assumes "distinct (map fst interface_providers)"
    and "(i, providers) \<in> set interface_providers"
  shows "filter (\<lambda>x. interface x = i) (check_interface_ownership interface_providers) =
           (if length providers > 1 then [ownership_issue i providers] else []) \<and>
         component (ownership_issue i providers) = join '', '' providers \<and>
         severity (ownership_issue i providers) =
           (if \<exists>critical \<in> {''memory_interface'', ''process_interface'', ''filesystem_interface''}.
                 sublist critical i
            then ''error'' else ''warning'')"
  using filter_ownership [OF assms] list_ex_markers [of i]
  by (simp add: ownership_issue_def critical_markers_def)

theorem ownership_one_issue_per_shared_interface_witness:
  "distinct (map fst (build_interface_providers example_owners)) \<and>
   (''memory_interface.h'', [''A'', ''B'']) \<in> set (build_interface_providers example_owners) \<and>
   filter (\<lambda>x. interface x = ''memory_interface.h'')
     (check_interface_ownership (build_interface_providers example_owners)) =
     [ownership_issue ''memory_interface.h'' [''A'', ''B'']] \<and>
   component (ownership_issue ''memory_interface.h'' [''A'', ''B'']) = ''A, B'' \<and>
   severity (ownership_issue ''memory_interface.h'' [''A'', ''B'']) = ''error''"
proof -
  have m: "build_interface_providers example_owners =
      [(''memory_interface.h'', [''A'', ''B'']), (''types.h'', [''A''])]"
    by (simp add: build_interface_providers_def example_owners_def)
  have d: "distinct (map fst (build_interface_providers example_owners))"
    by (simp add: m)
  have e: "(''memory_interface.h'', [''A'', ''B'']) \<in> set (build_interface_providers example_owners)"
    by (simp add: m)
  have s: "sublist ''memory_interface'' ''memory_interface.h''"
    by (rule prefix_imp_sublist) simp
  from ownership_one_issue_per_shared_interface [OF d e] d e s show ?thesis
    by simp
qed

section \<open>Unresolved interfaces\<close>

lemma not_provided_iff:
  "map_of (build_interface_providers cs) i = None \<longleftrightarrow>
     (\<forall>c \<in> set cs. i \<notin> set (interfaces_provided c))"
  by (simp add: map_of_eq_None_iff keys_build_interface_providers)

lemma unresolved_issue_inj [simp]:
  "unresolved_issue n i = unresolved_issue n' i' \<longleftrightarrow> n = n' \<and> i = i'"
  by (auto simp: unresolved_issue_def)

lemma unresolved_message_inj [simp]:
  "message (unresolved_issue n i) = message (unresolved_issue n' i') \<longleftrightarrow> i = i'"
  by (auto simp: unresolved_issue_def)

lemma message_cycle_not_unresolved [simp]:
  "message (cycle_issue c) \<noteq> message (unresolved_issue n i)"
  by (simp add: cycle_issue_def unresolved_issue_def)

lemma message_ownership_not_unresolved [simp]:
  "message (ownership_issue k ps) \<noteq> message (unresolved_issue n i)"
  by (simp add: ownership_issue_def unresolved_issue_def)

lemma missing_mem:
  "x \<in> set (check_missing_interfaces cs m) \<longleftrightarrow>
     (\<exists>c \<in> set cs. \<exists>i \<in> set (interfaces_required c).
        map_of m i = None \<and> x = unresolved_issue (comp_name c) i)"
  by (auto simp: check_missing_interfaces_def)

lemma cycles_message:
  "x \<in> set (check_circular_dependencies cs) \<Longrightarrow> message x \<noteq> message (unresolved_issue n i)"
  by (auto simp: check_circular_dependencies_def check_cycles_in_def dest!: check_roots_cases)

lemma ownership_message:
  "x \<in> set (check_interface_ownership m) \<Longrightarrow> message x \<noteq> message (unresolved_issue n i)"
  by (auto simp: check_interface_ownership_def)

text \<open>
  Claim C6. The validator's list holds the unresolved-interface issue for the component
  named \<open>n\<close> and the interface \<open>i\<close> if and only if a component of that name in the
  list requires \<open>i\<close> and no component of the list provides \<open>i\<close>; and when some
  component provides \<open>i\<close>, no issue of the list carries the unresolved message for
  \<open>i\<close>, whatever its component.
\<close>

theorem unresolved_iff_required_and_unprovided:
  "(unresolved_issue n i \<in> set (validate_interface_compatibility components) \<longleftrightarrow>
      (\<exists>c \<in> set components. comp_name c = n \<and> i \<in> set (interfaces_required c)) \<and>
      (\<forall>c \<in> set components. i \<notin> set (interfaces_provided c))) \<and>
   ((\<exists>c \<in> set components. i \<in> set (interfaces_provided c)) \<longrightarrow>
      (\<forall>x \<in> set (validate_interface_compatibility components).
         message x \<noteq> message (unresolved_issue n i)))"
proof -
  let ?m = "build_interface_providers components"
  have other: "unresolved_issue n i \<notin> set (check_circular_dependencies components)"
    "unresolved_issue n i \<notin> set (check_interface_ownership ?m)"
    using cycles_message ownership_message by blast+
  have "unresolved_issue n i \<in> set (validate_interface_compatibility components) \<longleftrightarrow>
      unresolved_issue n i \<in> set (check_missing_interfaces components ?m)"
    using other by (simp add: validate_parts)
  also have "\<dots> \<longleftrightarrow> (\<exists>c \<in> set components. comp_name c = n \<and> i \<in> set (interfaces_required c)) \<and>
      (\<forall>c \<in> set components. i \<notin> set (interfaces_provided c))"
    by (auto simp: missing_mem not_provided_iff)
  finally have first: "unresolved_issue n i \<in> set (validate_interface_compatibility components) \<longleftrightarrow>
      (\<exists>c \<in> set components. comp_name c = n \<and> i \<in> set (interfaces_required c)) \<and>
      (\<forall>c \<in> set components. i \<notin> set (interfaces_provided c))" .
  have second: "message x \<noteq> message (unresolved_issue n i)"
    if p: "\<exists>c \<in> set components. i \<in> set (interfaces_provided c)"
      and x: "x \<in> set (validate_interface_compatibility components)" for x
  proof -
    from x consider "x \<in> set (check_missing_interfaces components ?m)"
      | "x \<in> set (check_circular_dependencies components)"
      | "x \<in> set (check_interface_ownership ?m)"
      by (auto simp: validate_parts)
    then show ?thesis
    proof cases
      case 1
      with p show ?thesis by (auto simp: missing_mem not_provided_iff)
    next
      case 2
      then show ?thesis by (rule cycles_message)
    next
      case 3
      then show ?thesis by (rule ownership_message)
    qed
  qed
  from first second show ?thesis by blast
qed

theorem unresolved_iff_required_and_unprovided_witness:
  "(\<exists>c \<in> set example_components.
      comp_name c = ''A'' \<and> ''hal_interface.h'' \<in> set (interfaces_required c)) \<and>
   \<not> (\<exists>c \<in> set example_components. ''hal_interface.h'' \<in> set (interfaces_provided c)) \<and>
   unresolved_issue ''A'' ''hal_interface.h''
     \<in> set (validate_interface_compatibility example_components) \<and>
   unresolved_issue ''B'' ''types.h''
     \<notin> set (validate_interface_compatibility example_components)"
proof -
  have r: "\<exists>c \<in> set example_components.
      comp_name c = ''A'' \<and> ''hal_interface.h'' \<in> set (interfaces_required c)"
    by (simp add: example_components_def)
  have p: "\<forall>c \<in> set example_components. ''hal_interface.h'' \<notin> set (interfaces_provided c)"
    by (simp add: example_components_def)
  have q: "\<not> (\<forall>c \<in> set example_components. ''types.h'' \<notin> set (interfaces_provided c))"
    by (simp add: example_components_def)
  from unresolved_iff_required_and_unprovided [of "''A''" "''hal_interface.h''" example_components]
    unresolved_iff_required_and_unprovided [of "''B''" "''types.h''" example_components]
    r p q
  show ?thesis by blast
qed

section \<open>The interfaces of a component\<close>

lemma analyze_files_eq:
  "analyze_files fs paths (provided, required, log) =
     (provided @ map path_name (header_paths paths),
      required @ concat (map (\<lambda>path. case fs path of Inr content \<Rightarrow> required_of_content content
                                                     | Inl e \<Rightarrow> [])
                           (header_paths paths)),
      log @ concat (map (\<lambda>path. case fs path of Inr content \<Rightarrow> []
                        | Inl e \<Rightarrow> [(WARNING, ''Could not analyze '' @ path @ '': '' @ e)])
                      (header_paths paths)))"
  by (induction paths arbitrary: provided required log)
     (auto simp: header_paths_def split: sum.splits)

lemma required_analyze:
  "set (interfaces_required (fst (analyze_component_interfaces fs c))) =
     set (interfaces_required c) \<union>
     (\<Union>path \<in> set (header_paths (file_paths c)).
         case fs path of Inr content \<Rightarrow> set (required_of_content content) | Inl e \<Rightarrow> {})"
  by (auto simp: analyze_component_interfaces_def analyze_files_eq list_set_def
           split: sum.splits)

lemma required_of_content_mem:
  "i \<in> set (required_of_content content) \<longleftrightarrow>
     (\<exists>included_file \<in> set (finditer include_h_pattern content).
        CHR ''/'' \<in> set included_file \<and> \<not> startswith included_file ''std'' \<and>
        i = path_name included_file)"
  by (auto simp: required_of_content_def)

lemma required_analyze_mem:
  "i \<in> set (interfaces_required (fst (analyze_component_interfaces fs c))) \<longleftrightarrow>
     i \<in> set (interfaces_required c) \<or>
     (\<exists>path \<in> set (file_paths c). \<exists>content.
        endswith path ''.h'' \<and> fs path = Inr content \<and> i \<in> set (required_of_content content))"
proof -
  have "i \<in> (\<Union>path \<in> set (header_paths (file_paths c)).
         case fs path of Inr content \<Rightarrow> set (required_of_content content) | Inl e \<Rightarrow> {}) \<longleftrightarrow>
     (\<exists>path \<in> set (file_paths c). \<exists>content.
        endswith path ''.h'' \<and> fs path = Inr content \<and> i \<in> set (required_of_content content))"
    (is "?l \<longleftrightarrow> ?r")
  proof
    assume ?l
    then obtain path where p: "path \<in> set (header_paths (file_paths c))"
      and i: "i \<in> (case fs path of Inr content \<Rightarrow> set (required_of_content content) | Inl e \<Rightarrow> {})"
      by blast
    from i obtain content where "fs path = Inr content" "i \<in> set (required_of_content content)"
      by (cases "fs path") auto
    with p show ?r by (auto simp: header_paths_def)
  next
    assume ?r
    then obtain path content where "path \<in> set (file_paths c)" "endswith path ''.h''"
      "fs path = Inr content" "i \<in> set (required_of_content content)" by blast
    then have "path \<in> set (header_paths (file_paths c))"
      "i \<in> (case fs path of Inr content \<Rightarrow> set (required_of_content content) | Inl e \<Rightarrow> {})"
      by (simp_all add: header_paths_def)
    then show ?l by blast
  qed
  then show ?thesis unfolding required_analyze by blast
qed

lemma provided_analyze:
  "set (interfaces_provided (fst (analyze_component_interfaces fs c))) =
     set (interfaces_provided c) \<union> path_name ` set (header_paths (file_paths c))"
  by (auto simp: analyze_component_interfaces_def analyze_files_eq list_set_def)

text \<open>The groups a pattern captures are made of characters of the text.\<close>

lemma lit_set: "lit p s = Some r \<Longrightarrow> set r \<subseteq> set s"
  by (induction p s rule: lit.induct) (auto split: if_splits)

lemma one_of_set: "one_of P s = Some r \<Longrightarrow> set r \<subseteq> set s"
  by (cases s) (auto split: if_splits)

lemma many1_set: "many1 P s = Some r \<Longrightarrow> set r \<subseteq> set s"
  by (cases s) (auto split: if_splits dest: set_dropWhileD)

lemma token_set: "token f g s = Some (t, r) \<Longrightarrow> set t \<subseteq> set s \<and> set r \<subseteq> set s"
  by (cases s) (auto split: if_splits dest: set_dropWhileD set_takeWhileD)

lemma match_include_h_set:
  assumes "match_at include_h_pattern s = Some (g, r)"
  shows "set g \<subseteq> set s \<and> set r \<subseteq> set s"
proof -
  from assms obtain s1 s2 s3 s4 where
    "lit ''#include'' s = Some s1" "many1 is_space s1 = Some s2"
    "one_of (\<lambda>c. c = CHR ''<'' \<or> c = CHR 0x22) s2 = Some s3"
    "token (\<lambda>c. c \<noteq> CHR ''>'' \<and> c \<noteq> CHR 0x22) (\<lambda>c. c \<noteq> CHR ''>'' \<and> c \<noteq> CHR 0x22) s3 = Some (g, s4)"
    "one_of (\<lambda>c. c = CHR ''>'' \<or> c = CHR 0x22) s4 = Some r"
    by (auto split: bind_splits if_splits)
  then show ?thesis
    by (meson lit_set many1_set one_of_set token_set subset_trans)
qed

lemma finditer_include_h_set:
  "g \<in> set (finditer include_h_pattern s) \<Longrightarrow> set g \<subseteq> set s"
proof (induction include_h_pattern s rule: finditer.induct)
  case 1
  then show ?case by simp
next
  case (2 c cs)
  show ?case
  proof (cases "match_at include_h_pattern (c # cs)")
    case None
    with 2 show ?thesis by auto
  next
    case (Some a)
    obtain g' r where a: "a = (g', r)" by (cases a)
    from Some a have sub: "set g' \<subseteq> set (c # cs)" "set r \<subseteq> set (c # cs)"
      using match_include_h_set by blast+
    from 2(3) Some a have "g = g' \<or> g \<in> set (finditer include_h_pattern r)" by simp
    then show ?thesis
    proof
      assume "g = g'"
      with sub show ?thesis by simp
    next
      assume "g \<in> set (finditer include_h_pattern r)"
      with 2(2) [OF Some a [symmetric]] have "set g \<subseteq> set r" by simp
      with sub show ?thesis by blast
    qed
  qed
qed

lemma required_of_content_no_slash:
  "CHR ''/'' \<notin> set content \<Longrightarrow> required_of_content content = []"
  using finditer_include_h_set [of _ content]
  by (auto simp: required_of_content_def filter_empty_conv)

text \<open>
  Claim C9. A name is in the required list \<^verbatim>\<open>analyze_component_interfaces\<close> returns
  if and only if it was there before or it is the file name of an include (ending in
  \<^verbatim>\<open>.h\<close>) that contains a \<^verbatim>\<open>/\<close> and does not start with \<^verbatim>\<open>std\<close>, found in a
  readable owned file whose path ends in \<^verbatim>\<open>.h\<close>; and when no readable owned header
  contains a \<^verbatim>\<open>/\<close> at all, as with bare includes only, nothing is added.
\<close>

theorem required_only_from_path_includes_of_headers:
  "(i \<in> set (interfaces_required (fst (analyze_component_interfaces fs c))) \<longleftrightarrow>
      i \<in> set (interfaces_required c) \<or>
      (\<exists>path \<in> set (file_paths c). \<exists>content.
         endswith path ''.h'' \<and> fs path = Inr content \<and>
         (\<exists>included_file \<in> set (finditer include_h_pattern content).
             CHR ''/'' \<in> set included_file \<and> \<not> startswith included_file ''std'' \<and>
             i = path_name included_file))) \<and>
   ((\<forall>path \<in> set (file_paths c). \<forall>content.
        endswith path ''.h'' \<and> fs path = Inr content \<longrightarrow> CHR ''/'' \<notin> set content) \<longrightarrow>
      set (interfaces_required (fst (analyze_component_interfaces fs c))) =
        set (interfaces_required c))"
proof (intro conjI impI)
  show "i \<in> set (interfaces_required (fst (analyze_component_interfaces fs c))) \<longleftrightarrow>
      i \<in> set (interfaces_required c) \<or>
      (\<exists>path \<in> set (file_paths c). \<exists>content.
         endswith path ''.h'' \<and> fs path = Inr content \<and>
         (\<exists>included_file \<in> set (finditer include_h_pattern content).
             CHR ''/'' \<in> set included_file \<and> \<not> startswith included_file ''std'' \<and>
             i = path_name included_file))"
    unfolding required_analyze_mem required_of_content_mem ..
next
  assume bare: "\<forall>path \<in> set (file_paths c). \<forall>content.
        endswith path ''.h'' \<and> fs path = Inr content \<longrightarrow> CHR ''/'' \<notin> set content"
  have "(case fs path of Inr content \<Rightarrow> set (required_of_content content) | Inl e \<Rightarrow> {}) = {}"
    if "path \<in> set (header_paths (file_paths c))" for path
    using that bare by (auto simp: header_paths_def required_of_content_no_slash split: sum.splits)
  then show "set (interfaces_required (fst (analyze_component_interfaces fs c))) =
        set (interfaces_required c)"
    unfolding required_analyze by simp
qed

theorem required_only_from_path_includes_of_headers_witness:
  "''types.h'' \<in> set (interfaces_required (fst (analyze_component_interfaces example_headers example_kernel))) \<and>
   ''memory_interface.h'' \<notin> set (interfaces_required (fst (analyze_component_interfaces example_headers example_kernel))) \<and>
   ''pci.h'' \<notin> set (interfaces_required (fst (analyze_component_interfaces example_headers example_kernel))) \<and>
   set (interfaces_required (fst (analyze_component_interfaces example_headers example_driver))) = {}"
proof -
  have inc: "finditer include_h_pattern
      (''#include '' @ [CHR 0x22] @ ''memory_interface.h'' @ [CHR 0x22] @
       '' #include <kernel/include/types.h> #include <std/x.h>'') =
      [''memory_interface.h'', ''kernel/include/types.h'', ''std/x.h'']"
    by code_simp
  have rhs: "\<exists>path \<in> set (file_paths example_kernel). \<exists>content.
         endswith path ''.h'' \<and> example_headers path = Inr content \<and>
         (\<exists>included_file \<in> set (finditer include_h_pattern content).
             CHR ''/'' \<in> set included_file \<and> \<not> startswith included_file ''std'' \<and>
             ''types.h'' = path_name included_file)"
    apply (rule bexI [of _ "''kernel/include/api.h''"])
     apply (rule exI [of _ "''#include '' @ [CHR 0x22] @ ''memory_interface.h'' @ [CHR 0x22] @
       '' #include <kernel/include/types.h> #include <std/x.h>''"])
     apply (intro conjI)
       apply (simp add: endswith_def suffix_def)
      apply (simp add: example_headers_def)
     apply (rule bexI [of _ "''kernel/include/types.h''"])
      apply (simp add: startswith_def path_name_def path_parts_def)
    using inc apply simp
    apply (simp add: example_kernel_def)
    done
  have bare: "\<forall>path \<in> set (file_paths example_driver). \<forall>content.
        endswith path ''.h'' \<and> example_headers path = Inr content \<longrightarrow> CHR ''/'' \<notin> set content"
    by (simp add: example_driver_def example_headers_def)
  have init: "set (interfaces_required example_driver) = {}"
    by (simp add: example_driver_def)
  have no: "''memory_interface.h'' \<notin> set (interfaces_required (fst (analyze_component_interfaces example_headers example_kernel)))"
    "''pci.h'' \<notin> set (interfaces_required (fst (analyze_component_interfaces example_headers example_kernel)))"
    by code_simp+
  have yes: "''types.h'' \<in> set (interfaces_required (fst (analyze_component_interfaces example_headers example_kernel)))"
    using required_only_from_path_includes_of_headers [of "''types.h''" example_headers example_kernel]
      rhs by fast
  have none: "set (interfaces_required (fst (analyze_component_interfaces example_headers example_driver))) = {}"
    using mp [OF conjunct2 [OF required_only_from_path_includes_of_headers
        [of "''types.h''" example_headers example_driver]] bare] init by simp
  from yes none no show ?thesis by simp
qed

section \<open>The dependency graph\<close>

lemma set_set_add [simp]: "set (set_add x xs) = insert x (set xs)"
  by (auto simp: set_add_def)

lemma distinct_set_add: "distinct xs \<Longrightarrow> distinct (set_add x xs)"
  by (simp add: set_add_def)

lemma set_fold_add:
  "set (fold (\<lambda>other deps. if P other then set_add (f other) deps else deps) cs deps) =
     set deps \<union> f ` {other \<in> set cs. P other}"
  by (induction cs arbitrary: deps) auto

lemma set_providers_of:
  "set (providers_of components c) =
     {comp_name other | other. other \<in> set components \<and> comp_name other \<noteq> comp_name c \<and>
        (\<exists>i \<in> set (interfaces_required c). i \<in> set (interfaces_provided other))}"
proof -
  have "set (fold (\<lambda>required_interface deps.
             fold (\<lambda>other_component deps.
                     if required_interface \<in> set (interfaces_provided other_component) \<and>
                        comp_name other_component \<noteq> comp_name c
                     then set_add (comp_name other_component) deps else deps)
               components deps) rs deps) =
     set deps \<union> {comp_name other | other. other \<in> set components \<and> comp_name other \<noteq> comp_name c \<and>
        (\<exists>i \<in> set rs. i \<in> set (interfaces_provided other))}" for rs deps
    by (induction rs arbitrary: deps) (auto simp: set_fold_add)
  then show ?thesis by (simp add: providers_of_def)
qed

lemma self_not_in_providers_of: "comp_name c \<notin> set (providers_of components c)"
  by (auto simp: set_providers_of)

lemma set_dict_set: "set (dict_set k v m) \<subseteq> insert (k, v) (set m)"
  by (induction k v m rule: dict_set.induct) auto

lemma keys_dict_set [simp]: "fst ` set (dict_set k v m) = insert k (fst ` set m)"
  by (induction k v m rule: dict_set.induct) auto

lemma distinct_dict_set: "distinct (map fst m) \<Longrightarrow> distinct (map fst (dict_set k v m))"
proof (induction k v m rule: dict_set.induct)
  case (1 k v)
  then show ?case by simp
next
  case (2 k v k' v' m)
  have "fst ` set (dict_set k v m) = insert k (fst ` set m)" by simp
  with 2 show ?case by auto
qed

lemma map_of_dict_set: "map_of (dict_set k v m) = (map_of m)(k \<mapsto> v)"
  by (induction k v m rule: dict_set.induct) (auto simp: fun_eq_iff)

lemma graph_fold_entries:
  "set (fold (\<lambda>c g. dict_set (comp_name c) (f c) g) cs g) \<subseteq>
     set g \<union> (\<lambda>c. (comp_name c, f c)) ` set cs"
proof (induction cs arbitrary: g)
  case Nil
  then show ?case by simp
next
  case (Cons c cs)
  have "set (fold (\<lambda>c g. dict_set (comp_name c) (f c) g) cs (dict_set (comp_name c) (f c) g)) \<subseteq>
     set (dict_set (comp_name c) (f c) g) \<union> (\<lambda>c. (comp_name c, f c)) ` set cs"
    by (rule Cons.IH)
  with set_dict_set [of "comp_name c" "f c" g] show ?case by auto
qed

lemma graph_entries:
  "(n, deps) \<in> set (build_dependency_graph components) \<Longrightarrow>
     \<exists>c \<in> set components. n = comp_name c \<and> deps = providers_of components c"
  using graph_fold_entries [of "providers_of components" components "[]"]
  by (auto simp: build_dependency_graph_def)

lemma keys_graph_fold:
  "fst ` set (fold (\<lambda>c g. dict_set (comp_name c) (f c) g) cs g) =
      fst ` set g \<union> comp_name ` set cs"
  by (induction cs arbitrary: g) auto

lemma distinct_graph_fold:
  "distinct (map fst g) \<Longrightarrow>
      distinct (map fst (fold (\<lambda>c g. dict_set (comp_name c) (f c) g) cs g))"
  by (induction cs arbitrary: g) (auto simp: distinct_dict_set)

lemma graph_keys:
  "fst ` set (build_dependency_graph components) = comp_name ` set components"
  by (simp add: build_dependency_graph_def keys_graph_fold)

lemma graph_distinct: "distinct (map fst (build_dependency_graph components))"
  by (simp add: build_dependency_graph_def distinct_graph_fold)

lemma graph_no_self_edge:
  "(n, deps) \<in> set (build_dependency_graph components) \<Longrightarrow> n \<notin> set deps"
  using graph_entries self_not_in_providers_of by metis

text \<open>
  Claim C1, as stated, fails: the kernel component owns \<^verbatim>\<open>api.h\<close> and \<^verbatim>\<open>types.h\<close>,
  \<^verbatim>\<open>api.h\<close> includes \<^verbatim>\<open>kernel/include/types.h\<close>, and \<^verbatim>\<open>types.h\<close> is both
  provided and required.
\<close>

theorem required_excludes_provided_counterexample:
  "''types.h'' \<in> set (interfaces_required
      (fst (analyze_component_interfaces example_headers example_kernel))) \<and>
   ''types.h'' \<in> set (interfaces_provided
      (fst (analyze_component_interfaces example_headers example_kernel)))"
  by code_simp

text \<open>
  Claim C1, amended. Nothing is excluded from the required list: it holds every
  requirement of every readable owned header, provided by the component or not. A
  requirement on an interface of the component's own is left out where the dependency
  graph is built: no component has an edge to itself.
\<close>

theorem own_interface_required_without_self_dependency:
  "(\<forall>path \<in> set (file_paths c). \<forall>content.
      endswith path ''.h'' \<and> fs path = Inr content \<longrightarrow>
      set (required_of_content content) \<subseteq>
        set (interfaces_required (fst (analyze_component_interfaces fs c)))) \<and>
   (\<forall>(n, deps) \<in> set (build_dependency_graph components). n \<notin> set deps)"
  using required_analyze_mem [of _ fs c] graph_no_self_edge [of _ _ components]
  by auto

theorem own_interface_required_without_self_dependency_witness:
  "set (required_of_content (''#include '' @ [CHR 0x22] @ ''memory_interface.h'' @ [CHR 0x22] @
                '' #include <kernel/include/types.h> #include <std/x.h>'')) = {''types.h''} \<and>
   ''types.h'' \<in> set (interfaces_required
      (fst (analyze_component_interfaces example_headers example_kernel))) \<and>
   (''kernel-architect-component'', []) \<in> set (build_dependency_graph example_pair) \<and>
   (''ui-designer-component'', [''kernel-architect-component''])
      \<in> set (build_dependency_graph example_pair) \<and>
   ''ui-designer-component'' \<notin> set [''kernel-architect-component'']"
proof -
  let ?text = "''#include '' @ [CHR 0x22] @ ''memory_interface.h'' @ [CHR 0x22] @
                '' #include <kernel/include/types.h> #include <std/x.h>''"
  have p: "''kernel/include/api.h'' \<in> set (file_paths example_kernel)"
    by (simp add: example_kernel_def)
  have h: "endswith ''kernel/include/api.h'' ''.h'' \<and>
      example_headers ''kernel/include/api.h'' = Inr ?text"
    by (simp add: example_headers_def endswith_def suffix_def)
  have r: "set (required_of_content ?text) = {''types.h''}"
    by code_simp
  have g: "build_dependency_graph example_pair =
      [(''kernel-architect-component'', []),
       (''ui-designer-component'', [''kernel-architect-component''])]"
    by code_simp
  from own_interface_required_without_self_dependency
    [of example_kernel example_headers example_pair] p h
  have "set (required_of_content ?text) \<subseteq>
        set (interfaces_required (fst (analyze_component_interfaces example_headers example_kernel)))"
    by blast
  moreover
  from own_interface_required_without_self_dependency
    [of example_kernel example_headers example_pair] g
  have "''ui-designer-component'' \<notin> set [''kernel-architect-component'']"
    by simp
  ultimately show ?thesis using r g by simp
qed

section \<open>Circular dependencies\<close>

lemma reaches_cycle_step: "(a, b) \<in> E\<^sup>* \<Longrightarrow> reaches_cycle E b \<Longrightarrow> reaches_cycle E a"
  unfolding reaches_cycle_def by (meson rtrancl_trans)

lemma reaches_cycle_self: "(a, a) \<in> E\<^sup>+ \<Longrightarrow> reaches_cycle E a"
  unfolding reaches_cycle_def by blast

lemma has_cycle_sound:
  "stack_ok g (snd st) node \<Longrightarrow> result_ok g (snd st) node (has_cycle g node st)"
  "\<forall>p. (\<forall>n \<in> set ns. (p, n) \<in> edges g) \<longrightarrow> stack_ok' g (snd st') p \<longrightarrow>
       result_ok g (snd st') p (any_cycle g ns st')"
proof (induction g node st and g ns st' rule: has_cycle_any_cycle.induct)
  case (1 g node visited rec_stack)
  show ?case
  proof (cases "node \<in> rec_stack")
    case True
    with 1(2) have n: "reaches_cycle (edges g) node"
      by (auto simp: stack_ok_def intro: reaches_cycle_self)
    have "reaches_cycle (edges g) x" if "x \<in> rec_stack" for x
      using 1(2) that n
      by (auto simp: stack_ok_def intro: reaches_cycle_step [OF trancl_into_rtrancl])
    with True n show ?thesis by (simp add: result_ok_def has_cycle.simps)
  next
    case False
    show ?thesis
    proof (cases "node \<in> visited")
      case True
      with False show ?thesis by (simp add: result_ok_def has_cycle.simps)
    next
      case nv: False
      let ?res = "any_cycle g (neighbors g node) (insert node visited, insert node rec_stack)"
      have e: "\<forall>n \<in> set (neighbors g node). (node, n) \<in> edges g"
        by (simp add: edges_def)
      have s: "stack_ok' g (insert node rec_stack) node"
        using 1(2) by (auto simp: stack_ok_def stack_ok'_def)
      from 1(1) [OF False nv] e s
      have r: "result_ok g (insert node rec_stack) node ?res" by simp
      obtain b v r' where res: "?res = (b, v, r')" by (cases ?res) auto
      show ?thesis
      proof (cases b)
        case True
        with r res False nv show ?thesis by (simp add: result_ok_def has_cycle.simps)
      next
        case fb: False
        with r res have "r' = insert node rec_stack" by (simp add: result_ok_def)
        with res fb False nv show ?thesis by (simp add: result_ok_def has_cycle.simps)
      qed
    qed
  qed
next
  case (2 g st)
  show ?case by (simp add: result_ok_def)
next
  case (3 g neighbor rest st)
  show ?case
  proof (intro allI impI)
    fix p
    assume e: "\<forall>n \<in> set (neighbor # rest). (p, n) \<in> edges g"
      and s: "stack_ok' g (snd st) p"
    from e have pn: "(p, neighbor) \<in> edges g" by simp
    have "stack_ok g (snd st) neighbor"
      unfolding stack_ok_def
    proof
      fix x assume "x \<in> snd st"
      with s have "(x, p) \<in> (edges g)\<^sup>* \<or> reaches_cycle (edges g) x"
        by (simp add: stack_ok'_def)
      with pn show "(x, neighbor) \<in> (edges g)\<^sup>+ \<or> reaches_cycle (edges g) x"
        by (meson rtrancl_into_trancl1)
    qed
    from 3(1) [OF this] have r: "result_ok g (snd st) neighbor (has_cycle g neighbor st)" .
    obtain b st2 where hc: "has_cycle g neighbor st = (b, st2)"
      by (cases "has_cycle g neighbor st")
    show "result_ok g (snd st) p (any_cycle g (neighbor # rest) st)"
    proof (cases b)
      case True
      with r hc have "reaches_cycle (edges g) neighbor"
        "\<forall>x \<in> snd st2. reaches_cycle (edges g) x"
        by (simp_all add: result_ok_def)
      moreover from pn have "(p, neighbor) \<in> (edges g)\<^sup>*" by blast
      ultimately show ?thesis using hc True
        by (auto simp: result_ok_def intro: reaches_cycle_step)
    next
      case False
      with r hc have same: "snd st2 = snd st" by (simp add: result_ok_def)
      from e have e': "\<forall>n \<in> set rest. (p, n) \<in> edges g" by simp
      from 3(2) [of b st2] hc False
      have "\<forall>p. (\<forall>n \<in> set rest. (p, n) \<in> edges g) \<longrightarrow> stack_ok' g (snd st2) p \<longrightarrow>
          result_ok g (snd st2) p (any_cycle g rest st2)" by simp
      with e' s same have "result_ok g (snd st) p (any_cycle g rest st2)" by simp
      with hc False show ?thesis by simp
    qed
  qed
qed

lemma check_roots_sound:
  "\<forall>x \<in> snd st. reaches_cycle (edges g) x \<Longrightarrow> i \<in> set (check_roots g ns st) \<Longrightarrow>
     \<exists>n \<in> set ns. i = cycle_issue n \<and> reaches_cycle (edges g) n"
proof (induction ns arbitrary: st)
  case Nil
  then show ?case by simp
next
  case (Cons n ns)
  obtain visited rec_stack where st: "st = (visited, rec_stack)" by (cases st)
  show ?case
  proof (cases "n \<in> visited")
    case True
    with Cons.prems st have "i \<in> set (check_roots g ns st)" by simp
    with Cons.IH [OF Cons.prems(1)] show ?thesis by auto
  next
    case False
    obtain b st2 where hc: "has_cycle g n (visited, rec_stack) = (b, st2)"
      by (cases "has_cycle g n (visited, rec_stack)")
    from Cons.prems(1) st have "stack_ok g (snd (visited, rec_stack)) n"
      by (simp add: stack_ok_def)
    from has_cycle_sound(1) [OF this] hc
    have r: "result_ok g rec_stack n (b, st2)" by simp
    show ?thesis
    proof (cases b)
      case True
      with r have n: "reaches_cycle (edges g) n" and inv: "\<forall>x \<in> snd st2. reaches_cycle (edges g) x"
        by (simp_all add: result_ok_def)
      from Cons.prems(2) st False hc True
      have "i = cycle_issue n \<or> i \<in> set (check_roots g ns st2)" by simp
      with n Cons.IH [OF inv] show ?thesis by auto
    next
      case fb: False
      with r have "snd st2 = rec_stack" by (simp add: result_ok_def)
      with Cons.prems(1) st have inv: "\<forall>x \<in> snd st2. reaches_cycle (edges g) x" by simp
      from Cons.prems(2) st False hc fb have "i \<in> set (check_roots g ns st2)" by simp
      with Cons.IH [OF inv] show ?thesis by auto
    qed
  qed
qed

lemma check_roots_subseq: "subseq (map component (check_roots g ns st)) ns"
proof (induction ns arbitrary: st)
  case Nil
  then show ?case by simp
next
  case (Cons n ns)
  obtain visited rec_stack where st: "st = (visited, rec_stack)" by (cases st)
  obtain b st2 where hc: "has_cycle g n (visited, rec_stack) = (b, st2)"
    by (cases "has_cycle g n (visited, rec_stack)")
  show ?case
    using Cons.IH [of st] Cons.IH [of st2] st hc
    by (cases b) (auto simp: cycle_issue_def)
qed

lemma distinct_fold_add:
  "distinct deps \<Longrightarrow>
   distinct (fold (\<lambda>other deps. if P other then set_add (f other) deps else deps) cs deps)"
  by (induction cs arbitrary: deps) (auto simp: distinct_set_add)

lemma distinct_providers_of: "distinct (providers_of components c)"
proof -
  have "distinct deps \<Longrightarrow> distinct (fold (\<lambda>required_interface deps.
             fold (\<lambda>other_component deps.
                     if required_interface \<in> set (interfaces_provided other_component) \<and>
                        comp_name other_component \<noteq> comp_name c
                     then set_add (comp_name other_component) deps else deps)
               components deps) rs deps)" for rs deps
    by (induction rs arbitrary: deps) (auto simp: distinct_fold_add)
  then show ?thesis by (simp add: providers_of_def)
qed

lemma map_of_graph_fold_other:
  "k \<notin> comp_name ` set cs \<Longrightarrow>
     map_of (fold (\<lambda>c g. dict_set (comp_name c) (f c) g) cs g) k = map_of g k"
  by (induction cs arbitrary: g) (auto simp: map_of_dict_set)

lemma map_of_graph_fold:
  "distinct (map comp_name cs) \<Longrightarrow> c \<in> set cs \<Longrightarrow>
     map_of (fold (\<lambda>c g. dict_set (comp_name c) (f c) g) cs g) (comp_name c) = Some (f c)"
proof (induction cs arbitrary: g)
  case Nil
  then show ?case by simp
next
  case (Cons a cs)
  show ?case
  proof (cases "c = a")
    case True
    with Cons.prems have "comp_name c \<notin> comp_name ` set cs" by auto
    with True show ?thesis by (simp add: map_of_graph_fold_other map_of_dict_set)
  next
    case False
    with Cons show ?thesis by simp
  qed
qed

lemma neighbors_graph:
  "distinct (map comp_name components) \<Longrightarrow> c \<in> set components \<Longrightarrow>
     neighbors (build_dependency_graph components) (comp_name c) = providers_of components c"
  by (simp add: neighbors_def build_dependency_graph_def map_of_graph_fold)

lemma neighbors_graph_other:
  "n \<notin> comp_name ` set components \<Longrightarrow> neighbors (build_dependency_graph components) n = []"
  by (simp add: neighbors_def build_dependency_graph_def map_of_graph_fold_other)

lemma edges_graph:
  assumes "distinct (map comp_name components)"
  shows "edges (build_dependency_graph components) = depends_on components"
proof (rule set_eqI, clarify)
  fix a b
  show "(a, b) \<in> edges (build_dependency_graph components) \<longleftrightarrow> (a, b) \<in> depends_on components"
  proof (cases "a \<in> comp_name ` set components")
    case False
    then show ?thesis
      by (auto simp: edges_def neighbors_graph_other depends_on_def)
  next
    case True
    then obtain c where c: "c \<in> set components" "a = comp_name c" by auto
    have uniq: "c' = c" if "c' \<in> set components" "comp_name c' = comp_name c" for c'
      using assms that c(1) by (meson distinct_map inj_onD)
    have "(a, b) \<in> edges (build_dependency_graph components) \<longleftrightarrow>
        b \<in> set (providers_of components c)"
      using assms c by (simp add: edges_def neighbors_graph)
    also have "\<dots> \<longleftrightarrow> (a, b) \<in> depends_on components"
    proof
      assume "b \<in> set (providers_of components c)"
      then obtain other where o: "other \<in> set components" "b = comp_name other"
        "comp_name other \<noteq> comp_name c"
        "\<exists>i \<in> set (interfaces_required c). i \<in> set (interfaces_provided other)"
        unfolding set_providers_of by blast
      from o(4) have "set (interfaces_required c) \<inter> set (interfaces_provided other) \<noteq> {}"
        by blast
      with o c show "(a, b) \<in> depends_on components"
        unfolding depends_on_def by blast
    next
      assume "(a, b) \<in> depends_on components"
      then obtain a' b' where ab: "a = comp_name a'" "b = comp_name b'"
        "a' \<in> set components" "b' \<in> set components" "comp_name b' \<noteq> comp_name a'"
        "set (interfaces_required a') \<inter> set (interfaces_provided b') \<noteq> {}"
        unfolding depends_on_def by blast
      from ab(1,3) c(2) have "a' = c" by (intro uniq) simp_all
      with ab have "b' \<in> set components" "comp_name b' \<noteq> comp_name c"
        "\<exists>i \<in> set (interfaces_required c). i \<in> set (interfaces_provided b')"
        by blast+
      with ab(2) show "b \<in> set (providers_of components c)"
        unfolding set_providers_of by blast
    qed
    finally show ?thesis .
  qed
qed

lemma singleton_list: "distinct xs \<Longrightarrow> set xs = {x} \<Longrightarrow> xs = [x]"
proof (cases xs)
  case Nil
  assume "set xs = {x}"
  with Nil show ?thesis by simp
next
  case (Cons y ys)
  assume d: "distinct xs" and s: "set xs = {x}"
  from s Cons have y: "y = x" by auto
  from s Cons have "set ys \<subseteq> {x}" by auto
  moreover from d Cons y have "x \<notin> set ys" by simp
  ultimately have "ys = []" by (cases ys) auto
  with Cons y show ?thesis by simp
qed

lemma three_cycle_roots:
  "distinct [na, nb, nc] \<Longrightarrow>
     check_roots [(na, [nb]), (nb, [nc]), (nc, [na])] [na, nb, nc] ({}, {}) = [cycle_issue na]"
  by (auto simp: has_cycle.simps neighbors_def)

lemma three_cycle_roots_rev:
  "distinct [na, nb, nc] \<Longrightarrow>
     check_roots [(na, [nc]), (nb, [na]), (nc, [nb])] [na, nb, nc] ({}, {}) = [cycle_issue na]"
  by (auto simp: has_cycle.simps neighbors_def)

lemma graph_three:
  assumes d: "distinct [comp_name a, comp_name b, comp_name c]"
  shows "build_dependency_graph [a, b, c] =
     [(comp_name a, providers_of [a, b, c] a), (comp_name b, providers_of [a, b, c] b),
      (comp_name c, providers_of [a, b, c] c)]"
  using d by (auto simp: build_dependency_graph_def)

lemma neighbors_of_edges:
  assumes d: "distinct (map comp_name components)" and c: "c \<in> set components"
    and e: "\<And>x. (comp_name c, x) \<in> depends_on components \<longleftrightarrow> x = n"
  shows "providers_of components c = [n]"
proof -
  have "set (providers_of components c) = {x. (comp_name c, x) \<in> edges (build_dependency_graph components)}"
    using d c by (simp add: edges_def neighbors_graph)
  also have "\<dots> = {n}" using e by (simp add: edges_graph [OF d])
  finally show ?thesis using distinct_providers_of by (intro singleton_list)
qed

lemma iteration_order_keys: "iteration_order_of g h \<Longrightarrow> map fst g = map fst h"
  unfolding iteration_order_of_def
  by (induction g h rule: list_all2_induct) auto

lemma iteration_order_neighbors:
  "iteration_order_of g h \<Longrightarrow> set (neighbors g a) = set (neighbors h a)"
  unfolding iteration_order_of_def
  by (induction g h rule: list_all2_induct) (auto simp: neighbors_def)

lemma iteration_order_edges: "iteration_order_of g h \<Longrightarrow> edges g = edges h"
  by (simp add: edges_def iteration_order_neighbors)

lemma iteration_order_graph:
  "iteration_order_of (build_dependency_graph components) (build_dependency_graph components)"
  unfolding iteration_order_of_def list_all2_same
  using graph_entries distinct_providers_of by fastforce

lemma iteration_order_three:
  assumes "iteration_order_of g [(ka, [na]), (kb, [nb]), (kc, [nc])]"
  shows "g = [(ka, [na]), (kb, [nb]), (kc, [nc])]"
proof -
  from assms obtain xs ys zs where g: "g = [(ka, xs), (kb, ys), (kc, zs)]"
    and "distinct xs" "set xs = {na}" "distinct ys" "set ys = {nb}" "distinct zs" "set zs = {nc}"
    unfolding iteration_order_of_def
    by (auto simp: list_all2_Cons2)
  then have "xs = [na]" "ys = [nb]" "zs = [nc]"
    by (simp_all add: singleton_list)
  with g show ?thesis by simp
qed

lemma three_cycle_graph:
  assumes d: "distinct [comp_name a, comp_name b, comp_name c]"
    and e: "depends_on [a, b, c] =
              {(comp_name a, comp_name b), (comp_name b, comp_name c), (comp_name c, comp_name a)}"
  shows "build_dependency_graph [a, b, c] =
     [(comp_name a, [comp_name b]), (comp_name b, [comp_name c]), (comp_name c, [comp_name a])]"
proof -
  let ?cs = "[a, b, c]"
  from d have dm: "distinct (map comp_name ?cs)" by simp
  have "providers_of ?cs a = [comp_name b]" "providers_of ?cs b = [comp_name c]"
    "providers_of ?cs c = [comp_name a]"
    using d by (auto intro!: neighbors_of_edges [OF dm] simp: e)
  with graph_three [OF d] show ?thesis by simp
qed

lemma three_cycle_graph_rev:
  assumes d: "distinct [comp_name a, comp_name b, comp_name c]"
    and e: "depends_on [a, b, c] =
              {(comp_name a, comp_name c), (comp_name c, comp_name b), (comp_name b, comp_name a)}"
  shows "build_dependency_graph [a, b, c] =
     [(comp_name a, [comp_name c]), (comp_name b, [comp_name a]), (comp_name c, [comp_name b])]"
proof -
  let ?cs = "[a, b, c]"
  from d have dm: "distinct (map comp_name ?cs)" by simp
  have "providers_of ?cs a = [comp_name c]" "providers_of ?cs b = [comp_name a]"
    "providers_of ?cs c = [comp_name b]"
    using d by (auto intro!: neighbors_of_edges [OF dm] simp: e)
  with graph_three [OF d] show ?thesis by simp
qed

lemma three_cycle_issues_any_order:
  assumes d: "distinct [comp_name a, comp_name b, comp_name c]"
    and e: "depends_on [a, b, c] =
              {(comp_name a, comp_name b), (comp_name b, comp_name c), (comp_name c, comp_name a)} \<or>
            depends_on [a, b, c] =
              {(comp_name a, comp_name c), (comp_name c, comp_name b), (comp_name b, comp_name a)}"
    and g: "iteration_order_of g (build_dependency_graph [a, b, c])"
  shows "check_cycles_in g = [cycle_issue (comp_name a)]"
  using e
proof
  assume "depends_on [a, b, c] =
              {(comp_name a, comp_name b), (comp_name b, comp_name c), (comp_name c, comp_name a)}"
  from g three_cycle_graph [OF d this]
  have "g = [(comp_name a, [comp_name b]), (comp_name b, [comp_name c]), (comp_name c, [comp_name a])]"
    by (simp add: iteration_order_three)
  with three_cycle_roots [OF d] show ?thesis by (simp add: check_cycles_in_def)
next
  assume "depends_on [a, b, c] =
              {(comp_name a, comp_name c), (comp_name c, comp_name b), (comp_name b, comp_name a)}"
  from g three_cycle_graph_rev [OF d this]
  have "g = [(comp_name a, [comp_name c]), (comp_name b, [comp_name a]), (comp_name c, [comp_name b])]"
    by (simp add: iteration_order_three)
  with three_cycle_roots_rev [OF d] show ?thesis by (simp add: check_cycles_in_def)
qed

text \<open>
  Claim C3, amended. For components with distinct names, and for every order in which
  the neighbour sets of the dependency graph are iterated (\<open>g\<close>; the graph as built is
  one of them): no component is named by two cycle issues; every cycle issue names a
  component of the list from which a cycle of the dependency relation can be reached;
  and for three components whose dependency relation is a ring, in either direction
  along the list, there is exactly one cycle issue, naming the first component of the
  list.
\<close>

theorem cycle_issues_name_roots_reaching_a_cycle:
  assumes "distinct (map comp_name components)"
    and "iteration_order_of g (build_dependency_graph components)"
  shows "distinct (map component (check_cycles_in g)) \<and>
     (\<forall>x \<in> set (check_cycles_in g).
        \<exists>c \<in> set components. x = cycle_issue (comp_name c) \<and>
           reaches_cycle (depends_on components) (comp_name c)) \<and>
     (\<forall>a b c. components = [a, b, c] \<and>
        (depends_on components =
           {(comp_name a, comp_name b), (comp_name b, comp_name c), (comp_name c, comp_name a)} \<or>
         depends_on components =
           {(comp_name a, comp_name c), (comp_name c, comp_name b), (comp_name b, comp_name a)}) \<longrightarrow>
        check_cycles_in g = [cycle_issue (comp_name a)]) \<and>
     iteration_order_of (build_dependency_graph components) (build_dependency_graph components) \<and>
     check_circular_dependencies components = check_cycles_in (build_dependency_graph components)"
proof (intro conjI ballI allI impI)
  have k: "map fst g = map fst (build_dependency_graph components)"
    using assms(2) by (rule iteration_order_keys)
  have "subseq (map component (check_roots g (map fst g) ({}, {}))) (map fst g)"
    by (rule check_roots_subseq)
  with graph_distinct [of components] k
  show "distinct (map component (check_cycles_in g))"
    using subseqs_distinctD [of "map component (check_roots g (map fst g) ({}, {}))" "map fst g"]
    by (simp add: check_cycles_in_def)
next
  fix x
  assume "x \<in> set (check_cycles_in g)"
  then have "x \<in> set (check_roots g (map fst g) ({}, {}))"
    by (simp add: check_cycles_in_def)
  from check_roots_sound [OF _ this]
  obtain n where n: "n \<in> set (map fst g)" "x = cycle_issue n" "reaches_cycle (edges g) n"
    by auto
  from n(1) iteration_order_keys [OF assms(2)] graph_keys [of components]
  obtain c where "c \<in> set components" "n = comp_name c"
    by auto
  with n iteration_order_edges [OF assms(2)] edges_graph [OF assms(1)]
  show "\<exists>c \<in> set components. x = cycle_issue (comp_name c) \<and>
           reaches_cycle (depends_on components) (comp_name c)"
    by auto
next
  fix a b c
  assume h: "components = [a, b, c] \<and>
        (depends_on components =
           {(comp_name a, comp_name b), (comp_name b, comp_name c), (comp_name c, comp_name a)} \<or>
         depends_on components =
           {(comp_name a, comp_name c), (comp_name c, comp_name b), (comp_name b, comp_name a)})"
  then have cs: "components = [a, b, c]" by simp
  with assms have d: "distinct [comp_name a, comp_name b, comp_name c]" by simp
  from h cs have e: "depends_on [a, b, c] =
           {(comp_name a, comp_name b), (comp_name b, comp_name c), (comp_name c, comp_name a)} \<or>
         depends_on [a, b, c] =
           {(comp_name a, comp_name c), (comp_name c, comp_name b), (comp_name b, comp_name a)}"
    by simp
  from assms(2) cs have "iteration_order_of g (build_dependency_graph [a, b, c])" by simp
  from three_cycle_issues_any_order [OF d e this]
  show "check_cycles_in g = [cycle_issue (comp_name a)]" .
next
  show "iteration_order_of (build_dependency_graph components) (build_dependency_graph components)"
    by (rule iteration_order_graph)
next
  show "check_circular_dependencies components = check_cycles_in (build_dependency_graph components)"
    by (simp add: check_circular_dependencies_def)
qed

lemma cycle_issue_inj [simp]: "cycle_issue a = cycle_issue b \<longleftrightarrow> a = b"
  by (auto simp: cycle_issue_def)

text \<open>
  Claim C3, as stated, fails: with \<^verbatim>\<open>C\<close> requiring \<^verbatim>\<open>A\<close>, and \<^verbatim>\<open>A\<close> and \<^verbatim>\<open>B\<close>
  requiring each other, the traversal starts at \<^verbatim>\<open>C\<close>, the first component of the
  list, runs into the cycle of \<^verbatim>\<open>A\<close> and \<^verbatim>\<open>B\<close>, and the one issue names \<^verbatim>\<open>C\<close>,
  which lies on no cycle.
\<close>

theorem cycle_issue_names_component_on_cycle_counterexample:
  "build_dependency_graph example_cycle =
     [(''C'', [''A'']), (''A'', [''B'']), (''B'', [''A''])] \<and>
   check_circular_dependencies example_cycle = [cycle_issue ''C''] \<and>
   (''C'', ''C'') \<notin> (depends_on example_cycle)\<^sup>+"
proof -
  have g: "build_dependency_graph example_cycle =
     [(''C'', [''A'']), (''A'', [''B'']), (''B'', [''A''])]"
    by code_simp
  have i: "check_circular_dependencies example_cycle = [cycle_issue ''C'']"
    by code_simp
  have d: "distinct (map comp_name example_cycle)"
    by (simp add: example_cycle_def)
  have "(y, ''C'') \<notin> edges (build_dependency_graph example_cycle)" for y
    by (auto simp: g edges_def neighbors_def split: if_splits)
  then have "(y, ''C'') \<notin> depends_on example_cycle" for y
    by (simp add: edges_graph [OF d])
  then have "(''C'', ''C'') \<notin> (depends_on example_cycle)\<^sup>+"
    by (meson tranclD2)
  with g i show ?thesis by simp
qed

text \<open>
  With \<^verbatim>\<open>C\<close> last in the list, the traversal from \<^verbatim>\<open>A\<close> returns at the back edge
  with \<^verbatim>\<open>A\<close> and \<^verbatim>\<open>B\<close> still on \<^verbatim>\<open>rec_stack\<close>, and the later traversal from
  \<^verbatim>\<open>C\<close> meets \<^verbatim>\<open>A\<close> there: the one cycle is reported twice.
\<close>

lemma stale_rec_stack_reports_again:
  "check_circular_dependencies example_cycle_late = [cycle_issue ''A'', cycle_issue ''C'']"
  by code_simp

theorem cycle_issues_name_roots_reaching_a_cycle_witness:
  "distinct (map comp_name example_ring) \<and>
   iteration_order_of (build_dependency_graph example_ring) (build_dependency_graph example_ring) \<and>
   depends_on example_ring = {(''A'', ''B''), (''B'', ''C''), (''C'', ''A'')} \<and>
   check_circular_dependencies example_ring = [cycle_issue ''A''] \<and>
   reaches_cycle (depends_on example_ring) ''A''"
proof -
  let ?g = "build_dependency_graph example_ring"
  have d: "distinct (map comp_name example_ring)"
    by (simp add: example_ring_def)
  have o: "iteration_order_of ?g ?g"
    by (rule iteration_order_graph)
  have g: "?g = [(''A'', [''B'']), (''B'', [''C'']), (''C'', [''A''])]"
    by code_simp
  have "edges ?g = {(''A'', ''B''), (''B'', ''C''), (''C'', ''A'')}"
    by (auto simp: g edges_def neighbors_def split: if_splits)
  then have e: "depends_on example_ring = {(''A'', ''B''), (''B'', ''C''), (''C'', ''A'')}"
    by (simp add: edges_graph [OF d])
  note t = cycle_issues_name_roots_reaching_a_cycle [OF d o]
  have r: "example_ring = [example_ring ! 0, example_ring ! 1, example_ring ! 2]"
    by (simp add: example_ring_def)
  have n: "comp_name (example_ring ! 0) = ''A''" "comp_name (example_ring ! 1) = ''B''"
    "comp_name (example_ring ! 2) = ''C''"
    by (simp_all add: example_ring_def)
  from t have "example_ring = [example_ring ! 0, example_ring ! 1, example_ring ! 2] \<and>
        (depends_on example_ring =
           {(comp_name (example_ring ! 0), comp_name (example_ring ! 1)),
            (comp_name (example_ring ! 1), comp_name (example_ring ! 2)),
            (comp_name (example_ring ! 2), comp_name (example_ring ! 0))} \<or>
         depends_on example_ring =
           {(comp_name (example_ring ! 0), comp_name (example_ring ! 2)),
            (comp_name (example_ring ! 2), comp_name (example_ring ! 1)),
            (comp_name (example_ring ! 1), comp_name (example_ring ! 0))}) \<longrightarrow>
        check_cycles_in ?g = [cycle_issue (comp_name (example_ring ! 0))]"
    by blast
  with r e n have c: "check_cycles_in ?g = [cycle_issue ''A'']"
    by simp
  from t have "\<forall>x \<in> set (check_cycles_in ?g).
        \<exists>c \<in> set example_ring. x = cycle_issue (comp_name c) \<and>
           reaches_cycle (depends_on example_ring) (comp_name c)"
    by blast
  with c have "reaches_cycle (depends_on example_ring) ''A''" by auto
  moreover from c have "check_circular_dependencies example_ring = [cycle_issue ''A'']"
    by (simp add: check_circular_dependencies_def)
  ultimately show ?thesis using d o e by simp
qed

section \<open>The final issue list\<close>

text \<open>
  Claim C2, as stated, fails: \<^verbatim>\<open>main\<close> does not sort. Here the list is an error, a
  warning and an error, in this order.
\<close>

theorem final_list_sorted_counterexample:
  "main_issues example_tree example_source example_components (Some ''HEAD~1'') =
     [unresolved_issue ''A'' ''hal_interface.h'',
      ownership_issue ''types.h'' [''A'', ''B''],
      change_issue ''kernel/include/api.h'' (empty_interface ''/repo/kernel/include/api.h'')
        (removed_message ''Function'' ''gone'')] \<and>
   severity (ownership_issue ''types.h'' [''A'', ''B'']) = ''warning'' \<and>
   severity (change_issue ''kernel/include/api.h'' (empty_interface ''/repo/kernel/include/api.h'')
        (removed_message ''Function'' ''gone'')) = ''error'' \<and>
   \<not> sorted_issues (main_issues example_tree example_source example_components (Some ''HEAD~1''))"
  by code_simp

lemma severity_missing_list:
  "filter (\<lambda>i. severity i = ''warning'') (check_missing_interfaces cs m) = []"
  by (auto simp: filter_empty_conv dest: severity_missing)

lemma severity_cycles_list:
  "filter (\<lambda>i. severity i = ''warning'') (check_circular_dependencies cs) = []"
  by (auto simp: filter_empty_conv dest: severity_cycles)

lemma severity_changes_list:
  "filter (\<lambda>i. severity i = ''warning'') (check_interface_changes env fs base) = []"
  by (auto simp: filter_empty_conv dest: severity_changes)

text \<open>
  Claim C2, amended. The final list is the unresolved-interface issues, then the cycle
  issues, then the ownership issues, then (with \<^verbatim>\<open>--check-changes\<close>) the differ's
  issues, each part in the order it was produced; nothing is sorted, and the warnings
  of the list are the warnings of the ownership check, in its order.
\<close>

theorem final_list_in_production_order:
  "main_issues fs env discovered check_changes =
     (let components = map (\<lambda>c. fst (analyze_component_interfaces fs c)) discovered;
          interface_providers = build_interface_providers components
      in check_missing_interfaces components interface_providers @
         check_circular_dependencies components @
         check_interface_ownership interface_providers @
         (case check_changes of
            None \<Rightarrow> []
          | Some base_commit \<Rightarrow>
              if base_commit = [] then [] else check_interface_changes env fs base_commit)) \<and>
   filter (\<lambda>i. severity i = ''warning'') (main_issues fs env discovered check_changes) =
     filter (\<lambda>i. severity i = ''warning'')
       (check_interface_ownership
          (build_interface_providers
             (map (\<lambda>c. fst (analyze_component_interfaces fs c)) discovered)))"
  by (simp add: main_issues_def validate_interface_compatibility_def Let_def
      severity_missing_list severity_cycles_list severity_changes_list split: option.splits)

theorem final_list_in_production_order_witness:
  "main_issues example_tree example_source example_components (Some ''HEAD~1'') =
     check_missing_interfaces example_components (build_interface_providers example_components) @
     check_circular_dependencies example_components @
     check_interface_ownership (build_interface_providers example_components) @
     check_interface_changes example_source example_tree ''HEAD~1''"
proof -
  have a: "map (\<lambda>c. fst (analyze_component_interfaces example_tree c)) example_components =
      example_components"
    by code_simp
  from final_list_in_production_order
    [of example_tree example_source example_components "Some ''HEAD~1''"] a
  show ?thesis by (simp add: Let_def)
qed

section \<open>Parsed descriptors\<close>

lemma parse_readable:
  "fs path = Inr content \<Longrightarrow>
     fst (parse_header_file fs path) = parse_content (empty_interface path) content"
  by (simp add: parse_header_file_def Let_def)

lemma distinct_compare: "distinct (compare_interfaces P C)"
  by (auto simp: compare_interfaces_def distinct_map inj_removed_message)

lemma length_compare:
  "length (compare_interfaces P C) =
     card (set (functions' P) - set (functions' C)) +
     card (set (structures P) - set (structures C)) +
     card (set (constants P) - set (constants C))"
  by (simp add: compare_interfaces_def length_set_difference)

text \<open>
  Claim C7, as stated, fails: a constant defined in both branches of a conditional is
  listed twice.
\<close>

theorem parsed_names_counterexample:
  "constants (fst (parse_header_file example_config_tree ''kernel/include/limits.h'')) =
     [''MAX_NODES'', ''MAX_NODES''] \<and>
   \<not> distinct (constants (fst (parse_header_file example_config_tree ''kernel/include/limits.h'')))"
  by code_simp

text \<open>
  Claim C7, amended. For a readable artifact, each collection of the descriptor is the
  list of the names captured by the matches of its pattern, in text order, one entry
  for each match, so a name matched several times occurs several times. The names
  collapse where descriptors are compared: \<^verbatim>\<open>compare_interfaces\<close> reports no name
  twice, and the number of its messages is the number of distinct removed names.
\<close>

theorem parsed_names_once_per_match:
  assumes "fs path = Inr content"
  shows "functions' (fst (parse_header_file fs path)) = finditer function_pattern content \<and>
     structures (fst (parse_header_file fs path)) = finditer struct_pattern content \<and>
     constants (fst (parse_header_file fs path)) = finditer define_pattern content \<and>
     dependencies (fst (parse_header_file fs path)) =
       filter (\<lambda>include_file. \<not> startswith include_file ''std'' \<and>
                              \<not> startswith include_file ''sys/'')
         (finditer include_pattern content) \<and>
     distinct (compare_interfaces (fst (parse_header_file fs path)) current) \<and>
     length (compare_interfaces (fst (parse_header_file fs path)) current) =
       card (set (finditer function_pattern content) - set (functions' current)) +
       card (set (finditer struct_pattern content) - set (structures current)) +
       card (set (finditer define_pattern content) - set (constants current))"
proof -
  let ?d = "fst (parse_header_file fs path)"
  from assms have f: "functions' ?d = finditer function_pattern content"
    "structures ?d = finditer struct_pattern content"
    "constants ?d = finditer define_pattern content"
    "dependencies ?d =
       filter (\<lambda>include_file. \<not> startswith include_file ''std'' \<and>
                              \<not> startswith include_file ''sys/'')
         (finditer include_pattern content)"
    by (simp_all add: parse_readable parse_content_def empty_interface_def)
  have "length (compare_interfaces ?d current) =
       card (set (functions' ?d) - set (functions' current)) +
       card (set (structures ?d) - set (structures current)) +
       card (set (constants ?d) - set (constants current))"
    by (rule length_compare)
  with f distinct_compare [of ?d current] show ?thesis by simp
qed

theorem parsed_names_once_per_match_witness:
  "example_config_tree ''kernel/include/limits.h'' =
     Inr ''#ifdef SMALL #define MAX_NODES 16 #else #define MAX_NODES 32 #endif '' \<and>
   constants (fst (parse_header_file example_config_tree ''kernel/include/limits.h'')) =
     [''MAX_NODES'', ''MAX_NODES''] \<and>
   length (compare_interfaces (fst (parse_header_file example_config_tree ''kernel/include/limits.h''))
     (empty_interface ''kernel/include/limits.h'')) = 1"
proof -
  have r: "example_config_tree ''kernel/include/limits.h'' =
     Inr ''#ifdef SMALL #define MAX_NODES 16 #else #define MAX_NODES 32 #endif ''"
    by (simp add: example_config_tree_def)
  have f: "finditer function_pattern
      ''#ifdef SMALL #define MAX_NODES 16 #else #define MAX_NODES 32 #endif '' = []"
    "finditer struct_pattern
      ''#ifdef SMALL #define MAX_NODES 16 #else #define MAX_NODES 32 #endif '' = []"
    "finditer define_pattern
      ''#ifdef SMALL #define MAX_NODES 16 #else #define MAX_NODES 32 #endif '' =
        [''MAX_NODES'', ''MAX_NODES'']"
    by code_simp+
  from parsed_names_once_per_match [of example_config_tree "''kernel/include/limits.h''"
      "''#ifdef SMALL #define MAX_NODES 16 #else #define MAX_NODES 32 #endif ''"
      "empty_interface ''kernel/include/limits.h''"]
  have "constants (fst (parse_header_file example_config_tree ''kernel/include/limits.h'')) =
      finditer define_pattern ''#ifdef SMALL #define MAX_NODES 16 #else #define MAX_NODES 32 #endif ''"
    and "length (compare_interfaces (fst (parse_header_file example_config_tree ''kernel/include/limits.h''))
     (empty_interface ''kernel/include/limits.h'')) =
       card (set (finditer function_pattern ''#ifdef SMALL #define MAX_NODES 16 #else #define MAX_NODES 32 #endif '')
          - set (functions' (empty_interface ''kernel/include/limits.h''))) +
       card (set (finditer struct_pattern ''#ifdef SMALL #define MAX_NODES 16 #else #define MAX_NODES 32 #endif '')
          - set (structures (empty_interface ''kernel/include/limits.h''))) +
       card (set (finditer define_pattern ''#ifdef SMALL #define MAX_NODES 16 #else #define MAX_NODES 32 #endif '')
          - set (constants (empty_interface ''kernel/include/limits.h'')))"
    using r by blast+
  then have "constants (fst (parse_header_file example_config_tree ''kernel/include/limits.h'')) =
      [''MAX_NODES'', ''MAX_NODES'']"
    and "length (compare_interfaces (fst (parse_header_file example_config_tree ''kernel/include/limits.h''))
     (empty_interface ''kernel/include/limits.h'')) = 1"
    unfolding f by (simp_all add: empty_interface_def)
  with r show ?thesis by blast
qed

section \<open>Unreadable artifacts\<close>

text \<open>
  Claim C8, as stated, fails in two points. The failure is logged with
  \<^verbatim>\<open>logger.error\<close>: the record has the level \<^verbatim>\<open>ERROR\<close> and no record of the level
  \<^verbatim>\<open>WARNING\<close> is emitted. And the other artifacts are not always reached: when the
  test for the existence of an unreadable file raises, the loop over the changed files
  ends, and the removal in \<^verbatim>\<open>api.h\<close>, listed after it, is not reported.
\<close>

theorem unreadable_logged_as_warning_counterexample:
  "example_locked_tree ''/repo/kernel/include/locked.h'' =
     Inl (''[Errno 13] Permission denied: '' @ [CHR 0x27] @ ''/repo/kernel/include/locked.h'' @
          [CHR 0x27]) \<and>
   snd (parse_header_file example_locked_tree ''/repo/kernel/include/locked.h'') =
     [(ERROR, ''Failed to parse /repo/kernel/include/locked.h: [Errno 13] Permission denied: '' @
              [CHR 0x27] @ ''/repo/kernel/include/locked.h'' @ [CHR 0x27])] \<and>
   WARNING \<notin> fst ` set (snd (parse_header_file example_locked_tree ''/repo/kernel/include/locked.h'')) \<and>
   changes_of_file example_unsearchable_source example_locked_tree ''HEAD~1''
       ''kernel/include/api.h'' =
     Inr [change_issue ''kernel/include/api.h'' (empty_interface ''/repo/kernel/include/api.h'')
            (removed_message ''Function'' ''gone'')] \<and>
   check_interface_changes example_unsearchable_source example_locked_tree ''HEAD~1'' = []"
proof -
  have a: "example_locked_tree ''/repo/kernel/include/locked.h'' =
     Inl (''[Errno 13] Permission denied: '' @ [CHR 0x27] @ ''/repo/kernel/include/locked.h'' @
          [CHR 0x27])"
    by (simp add: example_locked_tree_def)
  have b: "snd (parse_header_file example_locked_tree ''/repo/kernel/include/locked.h'') =
     [(ERROR, ''Failed to parse /repo/kernel/include/locked.h: [Errno 13] Permission denied: '' @
              [CHR 0x27] @ ''/repo/kernel/include/locked.h'' @ [CHR 0x27])]"
    by (simp add: parse_header_file_def a)
  have c: "changes_of_file example_unsearchable_source example_locked_tree ''HEAD~1''
       ''kernel/include/api.h'' =
     Inr [change_issue ''kernel/include/api.h'' (empty_interface ''/repo/kernel/include/api.h'')
            (removed_message ''Function'' ''gone'')]"
    by code_simp
  have d: "check_interface_changes example_unsearchable_source example_locked_tree ''HEAD~1'' = []"
    by code_simp
  from a b c d show ?thesis by simp
qed


lemma parse_unreadable:
  "fs path = Inl e \<Longrightarrow> fst (parse_header_file fs path) = empty_interface path"
  by (simp add: parse_header_file_def)

lemma parse_temp:
  "fst (parse_header_file (fs(t := Inr text)) t) = parse_content (empty_interface t) text"
  by (simp add: parse_header_file_def Let_def)

lemma changes_of_unreadable_file:
  assumes "fs (full_path env p) = Inl e" and "p \<noteq> []" and "endswith p ''.h''"
    and "path_exists env (full_path env p) = Inr True"
  shows "changes_of_file env fs base_commit p =
     Inr (case show_previous env base_commit p of
            Inr (Some previous_text) \<Rightarrow>
              map (change_issue p (empty_interface (full_path env p)))
                (compare_interfaces
                   (fst (parse_header_file (fs(temp_path env := Inr previous_text)) (temp_path env)))
                   (empty_interface (full_path env p)))
          | _ \<Rightarrow> [])"
  using assms
  by (simp add: changes_of_file_def parse_unreadable Let_def split: sum.splits option.splits)

lemma length_compare_with_empty:
  "length (compare_interfaces (parse_content (empty_interface t) text) (empty_interface path)) =
     card (set (finditer function_pattern text)) + card (set (finditer struct_pattern text)) +
     card (set (finditer define_pattern text))"
  by (simp add: length_compare parse_content_def empty_interface_def)

text \<open>
  Claim C8, amended. For a path whose content cannot be read, \<^verbatim>\<open>parse_header_file\<close>
  returns (it does not raise) the descriptor named by the stem of the path, with empty
  function, structure, constant and reference lists, and hands exactly one record to
  the logger, of the level \<^verbatim>\<open>ERROR\<close>. When the test for the existence of such a
  changed file returns true, the loop over the changed files compares the empty
  descriptor with the previous revision, which reports every function, structure and
  constant of the previous revision as removed, and goes on with the files after it.
\<close>

theorem unreadable_file_gives_empty_descriptor:
  assumes "fs path = Inl e"
  shows "parse_header_file fs path =
       (\<lparr>name = path_stem path, file_path = path, functions' = [], structures = [],
         constants = [], version = ''1.0.0'', dependencies = []\<rparr>,
        [(ERROR, ''Failed to parse '' @ path @ '': '' @ e)]) \<and>
     (p \<noteq> [] \<and> endswith p ''.h'' \<and> full_path env p = path \<and>
      path_exists env path = Inr True \<longrightarrow>
        changed_files_loop env fs base_commit (p # rest) =
          (case show_previous env base_commit p of
             Inr (Some previous_text) \<Rightarrow>
               map (change_issue p (empty_interface path))
                 (compare_interfaces
                    (fst (parse_header_file (fs(temp_path env := Inr previous_text))
                           (temp_path env)))
                    (empty_interface path))
           | _ \<Rightarrow> []) @
          changed_files_loop env fs base_commit rest) \<and>
     (p \<noteq> [] \<and> endswith p ''.h'' \<and> full_path env p = path \<and>
      path_exists env path = Inr True \<and>
      show_previous env base_commit p = Inr (Some previous_text) \<longrightarrow>
        length (changed_files_loop env fs base_commit (p # rest)) =
          card (set (finditer function_pattern previous_text)) +
          card (set (finditer struct_pattern previous_text)) +
          card (set (finditer define_pattern previous_text)) +
          length (changed_files_loop env fs base_commit rest))"
proof (intro conjI impI)
  from assms show "parse_header_file fs path =
       (\<lparr>name = path_stem path, file_path = path, functions' = [], structures = [],
         constants = [], version = ''1.0.0'', dependencies = []\<rparr>,
        [(ERROR, ''Failed to parse '' @ path @ '': '' @ e)])"
    by (simp add: parse_header_file_def empty_interface_def)
next
  assume h: "p \<noteq> [] \<and> endswith p ''.h'' \<and> full_path env p = path \<and>
      path_exists env path = Inr True"
  with assms have "fs (full_path env p) = Inl e" "p \<noteq> []" "endswith p ''.h''"
    "path_exists env (full_path env p) = Inr True" by simp_all
  then have "changes_of_file env fs base_commit p =
     Inr (case show_previous env base_commit p of
            Inr (Some previous_text) \<Rightarrow>
              map (change_issue p (empty_interface (full_path env p)))
                (compare_interfaces
                   (fst (parse_header_file (fs(temp_path env := Inr previous_text)) (temp_path env)))
                   (empty_interface (full_path env p)))
          | _ \<Rightarrow> [])"
    by (rule changes_of_unreadable_file)
  moreover from h have fp: "full_path env p = path" by simp
  ultimately have "changes_of_file env fs base_commit p =
     Inr (case show_previous env base_commit p of
            Inr (Some previous_text) \<Rightarrow>
              map (change_issue p (empty_interface path))
                (compare_interfaces
                   (fst (parse_header_file (fs(temp_path env := Inr previous_text)) (temp_path env)))
                   (empty_interface path))
          | _ \<Rightarrow> [])"
    by (simp only: fp)
  with h
  show "changed_files_loop env fs base_commit (p # rest) =
          (case show_previous env base_commit p of
             Inr (Some previous_text) \<Rightarrow>
               map (change_issue p (empty_interface path))
                 (compare_interfaces
                    (fst (parse_header_file (fs(temp_path env := Inr previous_text))
                           (temp_path env)))
                    (empty_interface path))
           | _ \<Rightarrow> []) @
          changed_files_loop env fs base_commit rest"
    by simp
next
  assume h: "p \<noteq> [] \<and> endswith p ''.h'' \<and> full_path env p = path \<and>
      path_exists env path = Inr True \<and>
      show_previous env base_commit p = Inr (Some previous_text)"
  with assms have "fs (full_path env p) = Inl e" "p \<noteq> []" "endswith p ''.h''"
    "path_exists env (full_path env p) = Inr True" by simp_all
  then have "changes_of_file env fs base_commit p =
     Inr (case show_previous env base_commit p of
            Inr (Some previous_text) \<Rightarrow>
              map (change_issue p (empty_interface (full_path env p)))
                (compare_interfaces
                   (fst (parse_header_file (fs(temp_path env := Inr previous_text)) (temp_path env)))
                   (empty_interface (full_path env p)))
          | _ \<Rightarrow> [])"
    by (rule changes_of_unreadable_file)
  moreover from h have fp: "full_path env p = path" by simp
  ultimately have "changes_of_file env fs base_commit p =
     Inr (case show_previous env base_commit p of
            Inr (Some previous_text) \<Rightarrow>
              map (change_issue p (empty_interface path))
                (compare_interfaces
                   (fst (parse_header_file (fs(temp_path env := Inr previous_text)) (temp_path env)))
                   (empty_interface path))
          | _ \<Rightarrow> [])"
    by (simp only: fp)
  with h
  have "changed_files_loop env fs base_commit (p # rest) =
      map (change_issue p (empty_interface path))
        (compare_interfaces (parse_content (empty_interface (temp_path env)) previous_text)
           (empty_interface path)) @
      changed_files_loop env fs base_commit rest"
    by (simp add: parse_temp)
  then show "length (changed_files_loop env fs base_commit (p # rest)) =
          card (set (finditer function_pattern previous_text)) +
          card (set (finditer struct_pattern previous_text)) +
          card (set (finditer define_pattern previous_text)) +
          length (changed_files_loop env fs base_commit rest)"
    by (simp add: length_compare_with_empty)
qed


theorem unreadable_file_gives_empty_descriptor_witness:
  "example_locked_tree ''/repo/kernel/include/locked.h'' =
     Inl (''[Errno 13] Permission denied: '' @ [CHR 0x27] @ ''/repo/kernel/include/locked.h'' @
          [CHR 0x27]) \<and>
   path_exists example_locked_source ''/repo/kernel/include/locked.h'' = Inr True \<and>
   fst (parse_header_file example_locked_tree ''/repo/kernel/include/locked.h'') =
     \<lparr>name = ''locked'', file_path = ''/repo/kernel/include/locked.h'', functions' = [],
      structures = [], constants = [], version = ''1.0.0'', dependencies = []\<rparr> \<and>
   change_issue ''kernel/include/api.h'' (empty_interface ''/repo/kernel/include/api.h'')
       (removed_message ''Function'' ''gone'')
     \<in> set (check_interface_changes example_locked_source example_locked_tree ''HEAD~1'') \<and>
   length (check_interface_changes example_locked_source example_locked_tree ''HEAD~1'') = 3"
proof -
  let ?path = "''/repo/kernel/include/locked.h''"
  let ?p = "''kernel/include/locked.h''"
  let ?text = "''int keep(void); int gone(void); ''"
  have u: "example_locked_tree ?path =
     Inl (''[Errno 13] Permission denied: '' @ [CHR 0x27] @ ?path @ [CHR 0x27])"
    by (simp add: example_locked_tree_def)
  have h: "?p \<noteq> [] \<and> endswith ?p ''.h'' \<and> full_path example_locked_source ?p = ?path \<and>
      path_exists example_locked_source ?path = Inr True \<and>
      show_previous example_locked_source ''HEAD~1'' ?p = Inr (Some ?text)"
    by (simp add: example_locked_source_def endswith_def suffix_def)
  have s: "path_stem ?path = ''locked''"
    by code_simp
  have f: "finditer function_pattern ?text = [''keep'', ''gone'']"
    "finditer struct_pattern ?text = []" "finditer define_pattern ?text = []"
    by code_simp+
  have r: "changed_files_loop example_locked_source example_locked_tree ''HEAD~1''
      [''kernel/include/api.h''] =
      [change_issue ''kernel/include/api.h'' (empty_interface ''/repo/kernel/include/api.h'')
         (removed_message ''Function'' ''gone'')]"
    by code_simp
  have c: "check_interface_changes example_locked_source example_locked_tree ''HEAD~1'' =
      changed_files_loop example_locked_source example_locked_tree ''HEAD~1''
        [?p, ''kernel/include/api.h'']"
    by (simp add: check_interface_changes_def example_locked_source_def)
  have k: "card (set [''keep'', ''gone'']) = 2"
    by simp
  note t = unreadable_file_gives_empty_descriptor [of example_locked_tree ?path
      "''[Errno 13] Permission denied: '' @ [CHR 0x27] @ ?path @ [CHR 0x27]"
      ?p example_locked_source "''HEAD~1''" "[''kernel/include/api.h'']" ?text, OF u]
  from t s have d: "fst (parse_header_file example_locked_tree ?path) =
     \<lparr>name = ''locked'', file_path = ?path, functions' = [],
      structures = [], constants = [], version = ''1.0.0'', dependencies = []\<rparr>"
    by simp
  from t h have "changed_files_loop example_locked_source example_locked_tree ''HEAD~1''
        [?p, ''kernel/include/api.h''] =
      (case show_previous example_locked_source ''HEAD~1'' ?p of
             Inr (Some previous_text) \<Rightarrow>
               map (change_issue ?p (empty_interface ?path))
                 (compare_interfaces
                    (fst (parse_header_file
                           (example_locked_tree(temp_path example_locked_source := Inr previous_text))
                           (temp_path example_locked_source)))
                    (empty_interface ?path))
           | _ \<Rightarrow> []) @
      changed_files_loop example_locked_source example_locked_tree ''HEAD~1''
        [''kernel/include/api.h'']"
    by blast
  with r c have m: "change_issue ''kernel/include/api.h'' (empty_interface ''/repo/kernel/include/api.h'')
       (removed_message ''Function'' ''gone'')
     \<in> set (check_interface_changes example_locked_source example_locked_tree ''HEAD~1'')"
    by simp
  from t h have "length (changed_files_loop example_locked_source example_locked_tree ''HEAD~1''
        [?p, ''kernel/include/api.h'']) =
          card (set (finditer function_pattern ?text)) +
          card (set (finditer struct_pattern ?text)) +
          card (set (finditer define_pattern ?text)) +
          length (changed_files_loop example_locked_source example_locked_tree ''HEAD~1''
            [''kernel/include/api.h''])"
    by blast
  with f k r c have l: "length (check_interface_changes example_locked_source example_locked_tree
      ''HEAD~1'') = 3"
    by simp
  from u h d m l show ?thesis by blast
qed

end
